theory Spec2Isabelle
  imports Main
begin

section \<open>Data model of RedBlackTree.h\<close>

text \<open>
  The class \<open>RedBlackTree<Key, Value>\<close> owns a graph of heap-allocated \<open>Node\<close> objects
  linked by raw pointers (\<open>parent\<close>, \<open>left\<close>, \<open>right\<close>) and a \<open>root\<close> pointer.
  A pointer is \<open>nat option\<close>: \<open>None\<close> is \<open>nullptr\<close>, \<open>Some a\<close> is the address \<open>a\<close>.
  The store maps every allocated address to its node; \<open>new\<close> takes the next address of
  a counter, \<open>delete\<close> removes the address from the store.  The field \<open>rotations\<close> is a
  ghost counter of the calls of \<open>leftRotate\<close> and \<open>rightRotate\<close>, \<open>transplants\<close> one of
  the calls of \<open>transplant\<close>; no operation reads them.
\<close>

datatype color = RED | BLACK

datatype error = DuplicateKey | KeyNotFound | NullDeref

record ('k, 'v) node =
  key :: 'k
  val :: 'v
  color :: color
  parent :: "nat option"
  left :: "nat option"
  right :: "nat option"

record ('k, 'v) tree_state =
  heap :: "nat \<Rightarrow> ('k, 'v) node option"
  root :: "nat option"
  nxt :: nat
  rotations :: nat
  transplants :: nat

text \<open>
  A member function is a state transformer that returns a value or raises, and keeps the
  state it reached when it raises (a C++ exception does not roll the heap back).  The
  outer \<open>option\<close> is \<open>None\<close> when the function does not return.  \<open>NullDeref\<close> stands
  for the undefined behaviour of reading or writing through \<open>nullptr\<close> or through a
  pointer to a released node.
\<close>

type_synonym ('a, 'k, 'v) prog =
  "('k, 'v) tree_state \<Rightarrow> ((error + 'a) \<times> ('k, 'v) tree_state) option"

definition ret :: "'a \<Rightarrow> ('a, 'k, 'v) prog" where
  "ret x = (\<lambda>s. Some (Inr x, s))"

definition throw :: "error \<Rightarrow> ('a, 'k, 'v) prog" where
  "throw e = (\<lambda>s. Some (Inl e, s))"

definition bind :: "('a, 'k, 'v) prog \<Rightarrow> ('a \<Rightarrow> ('b, 'k, 'v) prog) \<Rightarrow> ('b, 'k, 'v) prog" where
  "bind m f = (\<lambda>s. case m s of None \<Rightarrow> None
                 | Some (Inl e, s') \<Rightarrow> Some (Inl e, s')
                 | Some (Inr x, s') \<Rightarrow> f x s')"

definition seq :: "(unit, 'k, 'v) prog \<Rightarrow> ('b, 'k, 'v) prog \<Rightarrow> ('b, 'k, 'v) prog" where
  "seq m n = bind m (\<lambda>_. n)"

lemma bind_alt:
  "bind m f s = Option.bind (m s)
     (\<lambda>y. case y of (Inl e, s') \<Rightarrow> Some (Inl e, s') | (Inr x, s') \<Rightarrow> f x s')"
  by (simp add: bind_def split: option.splits)

lemma bind_prog_mono [partial_function_mono]:
  fixes B :: "('p \<Rightarrow> 'q option) \<Rightarrow> ('a, 'k, 'v) prog"
    and C :: "'a \<Rightarrow> ('p \<Rightarrow> 'q option) \<Rightarrow> ('b, 'k, 'v) prog"
  assumes mf: "mono_option (\<lambda>f. B f s)" and mg: "\<And>y s'. mono_option (\<lambda>f. C y f s')"
  shows "mono_option (\<lambda>f. bind (B f) (\<lambda>y. C y f) s)"
  unfolding bind_alt
proof (rule Partial_Function.bind_mono [OF mf])
  fix y :: "(error + 'a) \<times> ('k, 'v) tree_state"
  show "mono_option (\<lambda>f. case y of (Inl e, s') \<Rightarrow> Some (Inl e, s') | (Inr x, s') \<Rightarrow> C x f s')"
    by (cases y; cases "fst y") (auto intro: mg option.const_mono)
qed

lemma if_prog_mono [partial_function_mono]:
  assumes "mono_option (\<lambda>f. F f s)" and "mono_option (\<lambda>f. G f s)"
  shows "mono_option (\<lambda>f. (if c then F f else G f) s)"
  using assms by (cases c) simp_all

subsection \<open>Reading and writing through pointers\<close>

definition get :: "(('k, 'v) node \<Rightarrow> 'a) \<Rightarrow> nat option \<Rightarrow> ('a, 'k, 'v) prog" where
  "get f p = (\<lambda>s. case p of None \<Rightarrow> Some (Inl NullDeref, s)
     | Some a \<Rightarrow> (case heap s a of None \<Rightarrow> Some (Inl NullDeref, s)
                  | Some n \<Rightarrow> Some (Inr (f n), s)))"

definition get2 :: "(('k, 'v) node \<Rightarrow> nat option) \<Rightarrow> (('k, 'v) node \<Rightarrow> 'a) \<Rightarrow> nat option
    \<Rightarrow> ('a, 'k, 'v) prog" where
  "get2 f g p = bind (get f p) (get g)"

definition get3 :: "(('k, 'v) node \<Rightarrow> nat option) \<Rightarrow> (('k, 'v) node \<Rightarrow> nat option)
    \<Rightarrow> (('k, 'v) node \<Rightarrow> 'a) \<Rightarrow> nat option \<Rightarrow> ('a, 'k, 'v) prog" where
  "get3 f g h p = bind (get f p) (get2 g h)"

definition put :: "nat option \<Rightarrow> (('k, 'v) node \<Rightarrow> ('k, 'v) node) \<Rightarrow> (unit, 'k, 'v) prog" where
  "put p g = (\<lambda>s. case p of None \<Rightarrow> Some (Inl NullDeref, s)
     | Some a \<Rightarrow> (case heap s a of None \<Rightarrow> Some (Inl NullDeref, s)
                  | Some n \<Rightarrow> Some (Inr (), s\<lparr>heap := (heap s)(a \<mapsto> g n)\<rparr>)))"

definition set_color :: "nat option \<Rightarrow> color \<Rightarrow> (unit, 'k, 'v) prog" where
  "set_color p c = put p (\<lambda>n. n\<lparr>color := c\<rparr>)"

definition set_parent :: "nat option \<Rightarrow> nat option \<Rightarrow> (unit, 'k, 'v) prog" where
  "set_parent p q = put p (\<lambda>n. n\<lparr>parent := q\<rparr>)"

definition set_left :: "nat option \<Rightarrow> nat option \<Rightarrow> (unit, 'k, 'v) prog" where
  "set_left p q = put p (\<lambda>n. n\<lparr>left := q\<rparr>)"

definition set_right :: "nat option \<Rightarrow> nat option \<Rightarrow> (unit, 'k, 'v) prog" where
  "set_right p q = put p (\<lambda>n. n\<lparr>right := q\<rparr>)"

definition get_root :: "(nat option, 'k, 'v) prog" where
  "get_root = (\<lambda>s. Some (Inr (root s), s))"

definition set_root :: "nat option \<Rightarrow> (unit, 'k, 'v) prog" where
  "set_root p = (\<lambda>s. Some (Inr (), s\<lparr>root := p\<rparr>))"

text \<open>\<open>new Node(k, v)\<close>: colour RED and three null links, by the constructor's defaults.\<close>

definition new_node :: "'k \<Rightarrow> 'v \<Rightarrow> (nat option, 'k, 'v) prog" where
  "new_node k v = (\<lambda>s. Some (Inr (Some (nxt s)),
     s\<lparr>heap := (heap s)(nxt s \<mapsto>
          \<lparr>key = k, val = v, color = RED, parent = None, left = None, right = None\<rparr>),
       nxt := Suc (nxt s)\<rparr>))"

text \<open>\<open>delete p\<close>: nothing for \<open>nullptr\<close>, undefined for a node that is not allocated.\<close>

definition delete_node :: "nat option \<Rightarrow> (unit, 'k, 'v) prog" where
  "delete_node p = (\<lambda>s. case p of None \<Rightarrow> Some (Inr (), s)
     | Some a \<Rightarrow> (case heap s a of None \<Rightarrow> Some (Inl NullDeref, s)
                  | Some n \<Rightarrow> Some (Inr (), s\<lparr>heap := (heap s)(a := None)\<rparr>)))"

definition count_rotation :: "(unit, 'k, 'v) prog" where
  "count_rotation = (\<lambda>s. Some (Inr (), s\<lparr>rotations := Suc (rotations s)\<rparr>))"

definition count_transplant :: "(unit, 'k, 'v) prog" where
  "count_transplant = (\<lambda>s. Some (Inr (), s\<lparr>transplants := Suc (transplants s)\<rparr>))"

text \<open>\<open>p && p->color == RED\<close> and \<open>p == nullptr || p->color == BLACK\<close>.\<close>

definition is_red :: "nat option \<Rightarrow> (bool, 'k, 'v) prog" where
  "is_red p = (if p = None then ret False else bind (get color p) (\<lambda>c. ret (c = RED)))"

definition null_or_black :: "nat option \<Rightarrow> (bool, 'k, 'v) prog" where
  "null_or_black p = (if p = None then ret True else bind (get color p) (\<lambda>c. ret (c = BLACK)))"

section \<open>Rotation and transplant primitives\<close>

definition transplant :: "nat option \<Rightarrow> nat option \<Rightarrow> (unit, 'k, 'v) prog" where
  "transplant u v =
     seq count_transplant
     (bind (get parent u) (\<lambda>up.
      seq (if up = None then set_root v
           else bind (get2 parent left u) (\<lambda>upl.
                if u = upl then bind (get parent u) (\<lambda>up. set_left up v)
                else bind (get parent u) (\<lambda>up. set_right up v)))
          (if v \<noteq> None then bind (get parent u) (\<lambda>up. set_parent v up)
           else ret ())))"

definition leftRotate :: "nat option \<Rightarrow> (unit, 'k, 'v) prog" where
  "leftRotate x =
     seq count_rotation
     (bind (get right x) (\<lambda>y.
      if y = None then ret ()
      else
        seq (bind (get left y) (\<lambda>yl. set_right x yl))
       (seq (bind (get left y) (\<lambda>yl. if yl \<noteq> None then set_parent yl x else ret ()))
       (seq (bind (get parent x) (\<lambda>xp. set_parent y xp))
       (seq (bind (get parent x) (\<lambda>xp.
               if xp = None then set_root y
               else bind (get left xp) (\<lambda>xpl.
                    if x = xpl then set_left xp y else set_right xp y)))
       (seq (set_left y x)
            (set_parent x y)))))))"

definition rightRotate :: "nat option \<Rightarrow> (unit, 'k, 'v) prog" where
  "rightRotate y =
     seq count_rotation
     (bind (get left y) (\<lambda>x.
      if x = None then ret ()
      else
        seq (bind (get right x) (\<lambda>xr. set_left y xr))
       (seq (bind (get right x) (\<lambda>xr. if xr \<noteq> None then set_parent xr y else ret ()))
       (seq (bind (get parent y) (\<lambda>yp. set_parent x yp))
       (seq (bind (get parent y) (\<lambda>yp.
               if yp = None then set_root x
               else bind (get right yp) (\<lambda>ypr.
                    if y = ypr then set_right yp x else set_left yp x)))
       (seq (set_right x y)
            (set_parent y x)))))))"

section \<open>Queries\<close>

partial_function (option) search_loop :: "'k::linorder \<Rightarrow> nat option \<Rightarrow> (nat option, 'k, 'v) prog"
  where
  "search_loop k current s =
     (if current \<noteq> None then
        bind (get key current) (\<lambda>ck.
          if k < ck then bind (get left current) (search_loop k)
          else if k > ck then bind (get right current) (search_loop k)
          else ret current) s
      else ret None s)"

declare search_loop.simps [code]

definition search :: "'k::linorder \<Rightarrow> (nat option, 'k, 'v) prog" where
  "search k = bind get_root (search_loop k)"

partial_function (option) minimum_loop :: "nat option \<Rightarrow> (nat option, 'k, 'v) prog" where
  "minimum_loop node s =
     bind (get left node) (\<lambda>l. if l \<noteq> None then minimum_loop l else ret node) s"

declare minimum_loop.simps [code]

definition minimum :: "nat option \<Rightarrow> (nat option, 'k, 'v) prog" where
  "minimum node = (if node = None then ret None else minimum_loop node)"

partial_function (option) maximum_loop :: "nat option \<Rightarrow> (nat option, 'k, 'v) prog" where
  "maximum_loop node s =
     bind (get right node) (\<lambda>r. if r \<noteq> None then maximum_loop r else ret node) s"

declare maximum_loop.simps [code]

definition maximum :: "nat option \<Rightarrow> (nat option, 'k, 'v) prog" where
  "maximum node = (if node = None then ret None else maximum_loop node)"

partial_function (option) successor_loop :: "nat option \<Rightarrow> nat option \<Rightarrow> (nat option, 'k, 'v) prog"
  where
  "successor_loop node y s =
     (if y \<noteq> None then
        bind (get right y) (\<lambda>yr.
          if node = yr then bind (get parent y) (successor_loop y) else ret y) s
      else ret y s)"

declare successor_loop.simps [code]

definition successor :: "nat option \<Rightarrow> (nat option, 'k, 'v) prog" where
  "successor node =
     (if node = None then ret None
      else bind (get right node) (\<lambda>r.
        if r \<noteq> None then minimum r
        else bind (get parent node) (successor_loop node)))"

partial_function (option) predecessor_loop :: "nat option \<Rightarrow> nat option \<Rightarrow> (nat option, 'k, 'v) prog"
  where
  "predecessor_loop node y s =
     (if y \<noteq> None then
        bind (get left y) (\<lambda>yl.
          if node = yl then bind (get parent y) (predecessor_loop y) else ret y) s
      else ret y s)"

declare predecessor_loop.simps [code]

definition predecessor :: "nat option \<Rightarrow> (nat option, 'k, 'v) prog" where
  "predecessor node =
     (if node = None then ret None
      else bind (get left node) (\<lambda>l.
        if l \<noteq> None then maximum l
        else bind (get parent node) (predecessor_loop node)))"

text \<open>
  The traversals call \<open>visit\<close> on every node; the model returns the nodes in the order
  of the calls.
\<close>

partial_function (option) inOrderHelper :: "nat option \<Rightarrow> (nat list, 'k, 'v) prog" where
  "inOrderHelper node s =
     (if node = None then ret [] s
      else bind (get left node) (\<lambda>l. bind (inOrderHelper l) (\<lambda>xs.
           bind (get right node) (\<lambda>r. bind (inOrderHelper r) (\<lambda>ys.
           ret (xs @ the node # ys))))) s)"

declare inOrderHelper.simps [code]

definition inOrderTraversal :: "(nat list, 'k, 'v) prog" where
  "inOrderTraversal = bind get_root inOrderHelper"

section \<open>Validation\<close>

text \<open>\<open>p && p->color != BLACK\<close>.\<close>

definition non_black :: "nat option \<Rightarrow> (bool, 'k, 'v) prog" where
  "non_black p = (if p \<noteq> None then bind (get color p) (\<lambda>c. ret (c \<noteq> BLACK)) else ret False)"

partial_function (option) validateHelper :: "nat option \<Rightarrow> int \<Rightarrow> int \<Rightarrow> (bool \<times> int, 'k, 'v) prog"
  where
  "validateHelper node blackCount pathBlackCount s =
     (if node = None then
        (if pathBlackCount = - 1 then ret (True, blackCount) s
         else ret (blackCount = pathBlackCount, pathBlackCount) s)
      else
        bind (get color node) (\<lambda>c.
        bind (if c = RED then
                bind (bind (get left node) non_black) (\<lambda>lbad.
                  if lbad then ret True else bind (get right node) non_black)
              else ret False) (\<lambda>bad.
        if bad then ret (False, pathBlackCount)
        else
          bind (get color node) (\<lambda>c.
          bind (get left node) (\<lambda>l.
          bind (validateHelper l (if c = BLACK then blackCount + 1 else blackCount) pathBlackCount)
            (\<lambda>lres.
          if fst lres then
            bind (get right node) (\<lambda>r.
              validateHelper r (if c = BLACK then blackCount + 1 else blackCount) (snd lres))
          else ret (False, snd lres)))))) s)"

declare validateHelper.simps [code]

definition validate :: "(bool, 'k, 'v) prog" where
  "validate =
     bind get_root (\<lambda>r.
       if r = None then ret True
       else bind (get color r) (\<lambda>c.
         if c \<noteq> BLACK then ret False
         else bind (validateHelper r 0 (- 1)) (\<lambda>res. ret (fst res))))"

section \<open>Insertion\<close>

definition insertFixup_cond :: "nat option \<Rightarrow> (bool, 'k, 'v) prog" where
  "insertFixup_cond z =
     bind get_root (\<lambda>r.
       if z \<noteq> r then bind (get2 parent color z) (\<lambda>c. ret (c = RED)) else ret False)"

definition insertFixup_body :: "nat option \<Rightarrow> (nat option, 'k, 'v) prog" where
  "insertFixup_body z =
     bind (get parent z) (\<lambda>zp.
     bind (get3 parent parent left z) (\<lambda>zppl.
     if zp = zppl then
       bind (get3 parent parent right z) (\<lambda>y.
       bind (is_red y) (\<lambda>yred.
       if yred then
         seq (bind (get parent z) (\<lambda>zp. set_color zp BLACK))
        (seq (set_color y BLACK)
        (seq (bind (get2 parent parent z) (\<lambda>zpp. set_color zpp RED))
             (get2 parent parent z)))
       else
         bind (bind (get2 parent right z) (\<lambda>zpr.
                 if z = zpr then
                   bind (get parent z) (\<lambda>z. seq (leftRotate z) (ret z))
                 else ret z)) (\<lambda>z.
         seq (bind (get parent z) (\<lambda>zp. set_color zp BLACK))
        (seq (bind (get2 parent parent z) (\<lambda>zpp. set_color zpp RED))
        (seq (bind (get2 parent parent z) rightRotate)
             (ret z))))))
     else
       bind (get3 parent parent left z) (\<lambda>y.
       bind (is_red y) (\<lambda>yred.
       if yred then
         seq (bind (get parent z) (\<lambda>zp. set_color zp BLACK))
        (seq (set_color y BLACK)
        (seq (bind (get2 parent parent z) (\<lambda>zpp. set_color zpp RED))
             (get2 parent parent z)))
       else
         bind (bind (get2 parent left z) (\<lambda>zpl.
                 if z = zpl then
                   bind (get parent z) (\<lambda>z. seq (rightRotate z) (ret z))
                 else ret z)) (\<lambda>z.
         seq (bind (get parent z) (\<lambda>zp. set_color zp BLACK))
        (seq (bind (get2 parent parent z) (\<lambda>zpp. set_color zpp RED))
        (seq (bind (get2 parent parent z) leftRotate)
             (ret z))))))))"

partial_function (option) insertFixup_loop :: "nat option \<Rightarrow> (unit, 'k, 'v) prog" where
  "insertFixup_loop z s =
     bind (insertFixup_cond z) (\<lambda>b.
       if b then bind (insertFixup_body z) insertFixup_loop else ret ()) s"

declare insertFixup_loop.simps [code]

definition insertFixup :: "nat option \<Rightarrow> (unit, 'k, 'v) prog" where
  "insertFixup z = seq (insertFixup_loop z) (bind get_root (\<lambda>r. set_color r BLACK))"

partial_function (option) insert_loop ::
  "'k::linorder \<Rightarrow> nat option \<Rightarrow> nat option \<Rightarrow> (nat option, 'k, 'v) prog" where
  "insert_loop k y x s =
     (if x \<noteq> None then
        bind (get key x) (\<lambda>xk.
          if k < xk then bind (get left x) (insert_loop k x)
          else if k > xk then bind (get right x) (insert_loop k x)
          else throw DuplicateKey) s
      else ret y s)"

declare insert_loop.simps [code]

definition insert_rbt :: "'k::linorder \<Rightarrow> 'v \<Rightarrow> (unit, 'k, 'v) prog" where
  "insert_rbt k v =
     bind (new_node k v) (\<lambda>newNode.
     bind get_root (\<lambda>x.
     bind (insert_loop k None x) (\<lambda>y.
     seq (set_parent newNode y)
    (seq (if y = None then set_root newNode
          else bind (get key y) (\<lambda>yk.
               if k < yk then set_left y newNode else set_right y newNode))
         (insertFixup newNode)))))"

section \<open>Deletion\<close>

definition deleteFixup_cond :: "nat option \<Rightarrow> (bool, 'k, 'v) prog" where
  "deleteFixup_cond x =
     bind get_root (\<lambda>r. if x \<noteq> r then null_or_black x else ret False)"

text \<open>
  One pass through the body of the loop of \<open>deleteFixup\<close>, its two branches as
  \<open>deleteFixup_left\<close> (\<open>x\<close> is the left child of \<open>parent\<close>) and \<open>deleteFixup_right\<close>,
  each with the part after the test of a red sibling as \<open>deleteFixup_left_tail\<close> and
  \<open>deleteFixup_right_tail\<close>, which take the sibling \<open>w\<close>.
  The result is \<open>(brk, x, parent)\<close>: \<open>brk\<close> says that the pass ended in \<open>break\<close>.
\<close>

definition both_null_or_black :: "nat option \<Rightarrow> (bool, 'k, 'v) prog" where
  "both_null_or_black w =
     (if w = None then ret True
      else bind (bind (get left w) null_or_black) (\<lambda>lb.
           if lb then bind (get right w) null_or_black else ret False))"

definition deleteFixup_left_tail ::
  "nat option \<Rightarrow> nat option \<Rightarrow> (bool \<times> nat option \<times> nat option, 'k, 'v) prog" where
  "deleteFixup_left_tail parent' w =
     bind (both_null_or_black w) (\<lambda>both.
     if both then
       seq (if w \<noteq> None then set_color w RED else ret ())
           (bind (get parent parent') (\<lambda>pp. ret (False, parent', pp)))
     else
       bind (bind (bind (get right w) null_or_black) (\<lambda>rb.
               if rb then
                 seq (bind (get left w) (\<lambda>wl. if wl \<noteq> None then set_color wl BLACK else ret ()))
                (seq (set_color w RED)
                (seq (rightRotate w)
                     (get right parent')))
               else ret w)) (\<lambda>w.
       seq (if w \<noteq> None then bind (get color parent') (\<lambda>c. set_color w c) else ret ())
      (seq (set_color parent' BLACK)
      (seq (if w \<noteq> None then
              bind (get right w) (\<lambda>wr. if wr \<noteq> None then set_color wr BLACK else ret ())
            else ret ())
      (seq (leftRotate parent')
           (bind get_root (\<lambda>r. ret (True, r, parent'))))))))"

definition deleteFixup_left ::
  "nat option \<Rightarrow> (bool \<times> nat option \<times> nat option, 'k, 'v) prog" where
  "deleteFixup_left parent' =
     bind (get right parent') (\<lambda>w.
     bind (is_red w) (\<lambda>wred.
     bind (if wred then
             seq (set_color w BLACK)
            (seq (set_color parent' RED)
            (seq (leftRotate parent')
                 (get right parent')))
           else ret w) (deleteFixup_left_tail parent')))"

definition deleteFixup_right_tail ::
  "nat option \<Rightarrow> nat option \<Rightarrow> (bool \<times> nat option \<times> nat option, 'k, 'v) prog" where
  "deleteFixup_right_tail parent' w =
     bind (both_null_or_black w) (\<lambda>both.
     if both then
       seq (if w \<noteq> None then set_color w RED else ret ())
           (bind (get parent parent') (\<lambda>pp. ret (False, parent', pp)))
     else
       bind (bind (bind (get left w) null_or_black) (\<lambda>lb.
               if lb then
                 seq (bind (get right w) (\<lambda>wr. if wr \<noteq> None then set_color wr BLACK else ret ()))
                (seq (set_color w RED)
                (seq (leftRotate w)
                     (get left parent')))
               else ret w)) (\<lambda>w.
       seq (if w \<noteq> None then bind (get color parent') (\<lambda>c. set_color w c) else ret ())
      (seq (set_color parent' BLACK)
      (seq (if w \<noteq> None then
              bind (get left w) (\<lambda>wl. if wl \<noteq> None then set_color wl BLACK else ret ())
            else ret ())
      (seq (rightRotate parent')
           (bind get_root (\<lambda>r. ret (True, r, parent'))))))))"

definition deleteFixup_right ::
  "nat option \<Rightarrow> (bool \<times> nat option \<times> nat option, 'k, 'v) prog" where
  "deleteFixup_right parent' =
     bind (get left parent') (\<lambda>w.
     bind (is_red w) (\<lambda>wred.
     bind (if wred then
             seq (set_color w BLACK)
            (seq (set_color parent' RED)
            (seq (rightRotate parent')
                 (get left parent')))
           else ret w) (deleteFixup_right_tail parent')))"

definition deleteFixup_body ::
  "nat option \<Rightarrow> nat option \<Rightarrow> (bool \<times> nat option \<times> nat option, 'k, 'v) prog" where
  "deleteFixup_body x parent' =
     bind (if parent' \<noteq> None then get left parent' else ret None) (\<lambda>pl.
     if x = pl then deleteFixup_left parent' else deleteFixup_right parent')"

partial_function (option) deleteFixup_loop ::
  "nat option \<Rightarrow> nat option \<Rightarrow> (nat option, 'k, 'v) prog" where
  "deleteFixup_loop x parent' s =
     bind (deleteFixup_cond x) (\<lambda>b.
       if b then
         bind (deleteFixup_body x parent') (\<lambda>r.
           if fst r then ret (fst (snd r))
           else deleteFixup_loop (fst (snd r)) (snd (snd r)))
       else ret x) s"

declare deleteFixup_loop.simps [code]

definition deleteFixup :: "nat option \<Rightarrow> nat option \<Rightarrow> (unit, 'k, 'v) prog" where
  "deleteFixup x parent' =
     bind (deleteFixup_loop x parent') (\<lambda>x.
       if x \<noteq> None then set_color x BLACK else ret ())"

text \<open>
  The third branch of \<open>remove\<close>, from \<open>y = minimum(z->right)\<close> on: \<open>y\<close> is unlinked
  and takes the place and the colour of \<open>z\<close>.  The result is \<open>yOriginalColor\<close>, \<open>x\<close> and
  \<open>fixupParent\<close>.
\<close>

definition remove_two_children ::
  "nat option \<Rightarrow> nat option \<Rightarrow> (color \<times> nat option \<times> nat option, 'k, 'v) prog" where
  "remove_two_children z y =
     bind (get color y) (\<lambda>yOriginalColor.
     bind (get right y) (\<lambda>x.
     bind (get parent y) (\<lambda>yp.
     bind (if yp = z then ret y else get parent y) (\<lambda>fixupParent.
     seq (bind (get parent y) (\<lambda>yp.
            if yp \<noteq> z then
              seq (bind (get right y) (transplant y))
             (seq (bind (get right z) (set_right y))
                  (bind (get right y) (\<lambda>yr.
                     if yr \<noteq> None then set_parent yr y else ret ())))
            else ret ()))
    (seq (transplant z y)
    (seq (bind (get left z) (set_left y))
    (seq (bind (get left y) (\<lambda>yl.
            if yl \<noteq> None then set_parent yl y else ret ()))
    (seq (bind (get color z) (set_color y))
         (ret (yOriginalColor, x, fixupParent))))))))))"

definition remove_rbt :: "'k::linorder \<Rightarrow> (unit, 'k, 'v) prog" where
  "remove_rbt k =
     bind (search k) (\<lambda>z.
     if z = None then throw KeyNotFound
     else
       bind (get color z) (\<lambda>zc.
       bind (get left z) (\<lambda>zl.
       bind (if zl = None then
               bind (get right z) (\<lambda>x.
               bind (get parent z) (\<lambda>fixupParent.
               seq (bind (get right z) (transplant z))
                   (ret (zc, x, fixupParent))))
             else
               bind (get right z) (\<lambda>zr.
               if zr = None then
                 bind (get left z) (\<lambda>x.
                 bind (get parent z) (\<lambda>fixupParent.
                 seq (bind (get left z) (transplant z))
                     (ret (zc, x, fixupParent))))
               else
                 bind (bind (get right z) minimum) (remove_two_children z)))
         (\<lambda>r.
       seq (delete_node z)
           (if fst r = BLACK then deleteFixup (fst (snd r)) (snd (snd r)) else ret ())))))"

section \<open>Teardown\<close>

partial_function (option) destroy :: "nat option \<Rightarrow> (unit, 'k, 'v) prog" where
  "destroy node s =
     (if node \<noteq> None then
        bind (bind (get left node) destroy) (\<lambda>_.
        bind (bind (get right node) destroy) (\<lambda>_.
        delete_node node)) s
      else ret () s)"

declare destroy.simps [code]

text \<open>The destructor \<open>~RedBlackTree()\<close>.\<close>

definition destructor :: "(unit, 'k, 'v) prog" where
  "destructor = bind get_root destroy"

text \<open>The constructor \<open>RedBlackTree()\<close>: no node, a null root.\<close>

definition empty_tree :: "('k, 'v) tree_state" where
  "empty_tree = \<lparr>heap = (\<lambda>_. None), root = None, nxt = 0, rotations = 0, transplants = 0\<rparr>"

section \<open>Copy and swap\<close>

text \<open>\<open>new Node(k, v, c, p)\<close>: the constructor with a colour and a parent, as \<open>clone\<close> calls it.\<close>

definition new_node_with :: "'k \<Rightarrow> 'v \<Rightarrow> color \<Rightarrow> nat option \<Rightarrow> (nat option, 'k, 'v) prog" where
  "new_node_with k v c p = (\<lambda>s. Some (Inr (Some (nxt s)),
     s\<lparr>heap := (heap s)(nxt s \<mapsto>
          \<lparr>key = k, val = v, color = c, parent = p, left = None, right = None\<rparr>),
       nxt := Suc (nxt s)\<rparr>))"

partial_function (option) clone :: "nat option \<Rightarrow> nat option \<Rightarrow> (nat option, 'k, 'v) prog" where
  "clone node parent' s =
     (if node = None then ret None s
      else
        bind (get key node) (\<lambda>k.
        bind (get val node) (\<lambda>v.
        bind (get color node) (\<lambda>c.
        bind (new_node_with k v c parent') (\<lambda>newNode.
        bind (bind (bind (get left node) (\<lambda>l. clone l newNode)) (set_left newNode)) (\<lambda>_.
        bind (bind (bind (get right node) (\<lambda>r. clone r newNode)) (set_right newNode)) (\<lambda>_.
        ret newNode)))))) s)"

declare clone.simps [code]

text \<open>
  The copy constructor, on the state of the tree it constructs: the initializer
  \<open>root(nullptr)\<close>, then \<open>root = clone(other.root, nullptr)\<close>.  The argument is \<open>other.root\<close>.
\<close>

definition copy_constructor :: "nat option \<Rightarrow> (unit, 'k, 'v) prog" where
  "copy_constructor other = seq (set_root None) (bind (clone other None) set_root)"

text \<open>
  \<open>swap\<close>, which is \<open>std::swap(root, other.root)\<close>: the argument is \<open>other.root\<close> before the
  call, the result is \<open>other.root\<close> after it.
\<close>

definition swap_rbt :: "nat option \<Rightarrow> (nat option, 'k, 'v) prog" where
  "swap_rbt other = bind get_root (\<lambda>r. seq (set_root other) (ret r))"

section \<open>The tree a state stores\<close>

datatype ('k, 'v) tree = Leaf | Node "('k, 'v) tree" nat 'k 'v color "('k, 'v) tree"

fun rootp :: "('k, 'v) tree \<Rightarrow> nat option" where
  "rootp Leaf = None"
| "rootp (Node l a k v c r) = Some a"

fun addrs :: "('k, 'v) tree \<Rightarrow> nat list" where
  "addrs Leaf = []"
| "addrs (Node l a k v c r) = addrs l @ a # addrs r"

fun keys :: "('k, 'v) tree \<Rightarrow> 'k list" where
  "keys Leaf = []"
| "keys (Node l a k v c r) = keys l @ k # keys r"

fun rep :: "(nat \<Rightarrow> ('k, 'v) node option) \<Rightarrow> nat option \<Rightarrow> ('k, 'v) tree \<Rightarrow> bool" where
  "rep h par Leaf = True"
| "rep h par (Node l a k v c r) =
     (h a = Some \<lparr>key = k, val = v, color = c, parent = par, left = rootp l, right = rootp r\<rparr>
      \<and> rep h (Some a) l \<and> rep h (Some a) r)"

text \<open>
  The state stores the tree \<open>T\<close>: the root pointer leads to it, every node of \<open>T\<close> is
  allocated with the fields \<open>T\<close> gives it (the parent pointers included), and no
  address stands twice in \<open>T\<close>.
\<close>

definition tree_in :: "('k, 'v) tree_state \<Rightarrow> ('k, 'v) tree \<Rightarrow> bool" where
  "tree_in s T \<longleftrightarrow> rep (heap s) None T \<and> root s = rootp T \<and> distinct (addrs T)"

text \<open>The allocator's invariant: every allocated address is below the counter.\<close>

definition alloc_ok :: "('k, 'v) tree_state \<Rightarrow> bool" where
  "alloc_ok s \<longleftrightarrow> (\<forall>a. heap s a \<noteq> None \<longrightarrow> a < nxt s)"

definition same_alloc :: "('k, 'v) tree_state \<Rightarrow> ('k, 'v) tree_state \<Rightarrow> bool" where
  "same_alloc s s' \<longleftrightarrow> (\<forall>a. (heap s' a = None) = (heap s a = None)) \<and> nxt s' = nxt s"

fun lookup :: "('k::linorder, 'v) tree \<Rightarrow> 'k \<Rightarrow> nat option" where
  "lookup Leaf k = None"
| "lookup (Node l a k' v c r) k =
     (if k < k' then lookup l k else if k > k' then lookup r k else Some a)"

subsection \<open>Colour invariants\<close>

fun color_of :: "('k, 'v) tree \<Rightarrow> color" where
  "color_of Leaf = BLACK"
| "color_of (Node l a k v c r) = c"

fun bheight :: "('k, 'v) tree \<Rightarrow> nat" where
  "bheight Leaf = 0"
| "bheight (Node l a k v c r) = bheight l + (if c = BLACK then 1 else 0)"

fun no_red_red :: "('k, 'v) tree \<Rightarrow> bool" where
  "no_red_red Leaf = True"
| "no_red_red (Node l a k v c r) =
     ((c = RED \<longrightarrow> color_of l = BLACK \<and> color_of r = BLACK) \<and> no_red_red l \<and> no_red_red r)"

fun balanced :: "('k, 'v) tree \<Rightarrow> bool" where
  "balanced Leaf = True"
| "balanced (Node l a k v c r) = (bheight l = bheight r \<and> balanced l \<and> balanced r)"

definition rbt :: "('k, 'v) tree \<Rightarrow> bool" where
  "rbt t \<longleftrightarrow> color_of t = BLACK \<and> no_red_red t \<and> balanced t"

subsection \<open>Paths from the root\<close>

datatype ('k, 'v) frame =
    LF nat 'k 'v color "('k, 'v) tree"
  | RF "('k, 'v) tree" nat 'k 'v color

fun ctx_parent :: "('k, 'v) frame list \<Rightarrow> nat option" where
  "ctx_parent [] = None"
| "ctx_parent (LF a k v c r # fs) = Some a"
| "ctx_parent (RF l a k v c # fs) = Some a"

fun descend :: "'k::linorder \<Rightarrow> ('k, 'v) frame list \<Rightarrow> ('k, 'v) tree \<Rightarrow> ('k, 'v) frame list option"
  where
  "descend k ctx Leaf = Some ctx"
| "descend k ctx (Node l a k' v c r) =
     (if k < k' then descend k (LF a k' v c r # ctx) l
      else if k > k' then descend k (RF l a k' v c # ctx) r
      else None)"

fun plug1 :: "('k, 'v) frame \<Rightarrow> ('k, 'v) tree \<Rightarrow> ('k, 'v) tree" where
  "plug1 (LF a k v c r) t = Node t a k v c r"
| "plug1 (RF l a k v c) t = Node l a k v c t"

fun plug :: "('k, 'v) frame list \<Rightarrow> ('k, 'v) tree \<Rightarrow> ('k, 'v) tree" where
  "plug [] t = t"
| "plug (f # fs) t = plug fs (plug1 f t)"

fun frame_addrs :: "('k, 'v) frame \<Rightarrow> nat list" where
  "frame_addrs (LF a k v c r) = a # addrs r"
| "frame_addrs (RF l a k v c) = a # addrs l"

fun ctx_addrs :: "('k, 'v) frame list \<Rightarrow> nat list" where
  "ctx_addrs [] = []"
| "ctx_addrs (f # fs) = frame_addrs f @ ctx_addrs fs"

fun ctx_top :: "('k, 'v) frame list \<Rightarrow> nat option \<Rightarrow> nat option" where
  "ctx_top [] p = p"
| "ctx_top (f # fs) p = ctx_top fs (ctx_parent [f])"

fun rep_ctx :: "(nat \<Rightarrow> ('k, 'v) node option) \<Rightarrow> ('k, 'v) frame list \<Rightarrow> nat option \<Rightarrow> bool" where
  "rep_ctx h [] p = True"
| "rep_ctx h (LF a k v c r # fs) p =
     (h a = Some \<lparr>key = k, val = v, color = c, parent = ctx_parent fs, left = p, right = rootp r\<rparr>
      \<and> rep h (Some a) r \<and> rep_ctx h fs (Some a))"
| "rep_ctx h (RF l a k v c # fs) p =
     (h a = Some \<lparr>key = k, val = v, color = c, parent = ctx_parent fs, left = rootp l, right = p\<rparr>
      \<and> rep h (Some a) l \<and> rep_ctx h fs (Some a))"

definition focus :: "('k, 'v) tree_state \<Rightarrow> ('k, 'v) frame list \<Rightarrow> ('k, 'v) tree \<Rightarrow> bool" where
  "focus s ctx t \<longleftrightarrow> rep (heap s) (ctx_parent ctx) t \<and> rep_ctx (heap s) ctx (rootp t)
     \<and> root s = ctx_top ctx (rootp t) \<and> distinct (addrs t @ ctx_addrs ctx)"

subsection \<open>Example states\<close>

definition example_tree :: "(nat, unit) tree" where
  "example_tree = Node Leaf 0 1 () BLACK (Node Leaf 1 5 () RED Leaf)"

definition example_state :: "(nat, unit) tree_state" where
  "example_state =
     \<lparr>heap = [0 \<mapsto> \<lparr>key = 1, val = (), color = BLACK, parent = None, left = None, right = Some 1\<rparr>,
              1 \<mapsto> \<lparr>key = 5, val = (), color = RED, parent = Some 0, left = None, right = None\<rparr>],
      root = Some 0, nxt = 2, rotations = 0, transplants = 0\<rparr>"

definition bad_order_tree :: "(nat, unit) tree" where
  "bad_order_tree = Node (Node Leaf 1 5 () RED Leaf) 0 1 () BLACK Leaf"

definition bad_order_state :: "(nat, unit) tree_state" where
  "bad_order_state =
     \<lparr>heap = [0 \<mapsto> \<lparr>key = 1, val = (), color = BLACK, parent = None, left = Some 1, right = None\<rparr>,
              1 \<mapsto> \<lparr>key = 5, val = (), color = RED, parent = Some 0, left = None, right = None\<rparr>],
      root = Some 0, nxt = 2, rotations = 0, transplants = 0\<rparr>"

subsection \<open>The insertion fixup on a subtree in its context\<close>

fun frame_color :: "('k, 'v) frame \<Rightarrow> color" where
  "frame_color (LF a k v c r) = c"
| "frame_color (RF l a k v c) = c"

fun paint :: "color \<Rightarrow> ('k, 'v) tree \<Rightarrow> ('k, 'v) tree" where
  "paint c Leaf = Leaf"
| "paint c (Node l a k v c' r) = Node l a k v c r"

fun paint_frame :: "color \<Rightarrow> ('k, 'v) frame \<Rightarrow> ('k, 'v) frame" where
  "paint_frame c (LF a k v c' r) = LF a k v c r"
| "paint_frame c (RF l a k v c') = RF l a k v c"

text \<open>
  One pass of the loop of \<open>insertFixup\<close> on the subtree \<open>t\<close> of \<open>z\<close>, its parent's frame
  \<open>p\<close> and its grandparent's frame \<open>g\<close>: \<open>Inl t'\<close> when the pass recolours and moves
  \<open>z\<close> to the grandparent, whose subtree becomes \<open>t'\<close>; \<open>Inr (f, t')\<close> when it rotates,
  \<open>f\<close> being the frame that replaces \<open>p\<close> and \<open>g\<close> and \<open>t'\<close> the subtree of the new \<open>z\<close>.
\<close>

fun ifix_step :: "('k, 'v) frame \<Rightarrow> ('k, 'v) frame \<Rightarrow> ('k, 'v) tree
    \<Rightarrow> ('k, 'v) tree + ('k, 'v) frame \<times> ('k, 'v) tree" where
  "ifix_step p (LF ga gk gv gc u) t =
     (if color_of u = RED then
        Inl (Node (plug1 (paint_frame BLACK p) t) ga gk gv RED (paint BLACK u))
      else (case (p, t) of
          (RF pl pa pk pv pc, Node zl z kz vz zc zr) \<Rightarrow>
            Inr (LF z kz vz BLACK (Node zr ga gk gv RED u), Node pl pa pk pv pc zl)
        | (LF pa pk pv pc pr, _) \<Rightarrow>
            Inr (LF pa pk pv BLACK (Node pr ga gk gv RED u), t)
        | _ \<Rightarrow> Inr (p, t)))"
| "ifix_step p (RF u ga gk gv gc) t =
     (if color_of u = RED then
        Inl (Node (paint BLACK u) ga gk gv RED (plug1 (paint_frame BLACK p) t))
      else (case (p, t) of
          (LF pa pk pv pc pr, Node zl z kz vz zc zr) \<Rightarrow>
            Inr (RF (Node u ga gk gv RED zl) z kz vz BLACK, Node zr pa pk pv pc pr)
        | (RF pl pa pk pv pc, _) \<Rightarrow>
            Inr (RF (Node u ga gk gv RED pl) pa pk pv BLACK, t)
        | _ \<Rightarrow> Inr (p, t)))"

fun ifix :: "('k, 'v) frame list \<Rightarrow> ('k, 'v) tree \<Rightarrow> ('k, 'v) frame list \<times> ('k, 'v) tree" where
  "ifix [] t = ([], t)"
| "ifix [p] t = ([p], t)"
| "ifix (p # g # ctx) t =
     (if frame_color p = RED then
        (case ifix_step p g t of
           Inl t' \<Rightarrow> ifix ctx t'
         | Inr (f, t') \<Rightarrow> (f # ctx, t'))
      else (p # g # ctx, t))"

definition root_black :: "('k, 'v) frame list \<Rightarrow> bool" where
  "root_black ctx \<longleftrightarrow> (ctx = [] \<or> frame_color (last ctx) = BLACK)"

subsection \<open>Colour invariants of a subtree in its context\<close>

fun sibling :: "('k, 'v) frame \<Rightarrow> ('k, 'v) tree" where
  "sibling (LF a k v c r) = r"
| "sibling (RF l a k v c) = l"

fun ctx_nrr :: "('k, 'v) frame list \<Rightarrow> bool" where
  "ctx_nrr [] = True"
| "ctx_nrr (f # fs) =
     (no_red_red (sibling f)
      \<and> (frame_color f = RED \<longrightarrow> color_of (sibling f) = BLACK \<and> (fs \<noteq> [] \<longrightarrow> frame_color (hd fs) = BLACK))
      \<and> ctx_nrr fs)"

fun ctx_bal :: "('k, 'v) frame list \<Rightarrow> nat \<Rightarrow> bool" where
  "ctx_bal [] n = True"
| "ctx_bal (f # fs) n =
     (balanced (sibling f) \<and> bheight (sibling f) = n
      \<and> ctx_bal fs (n + (if frame_color f = BLACK then 1 else 0)))"

definition fix_inv :: "('k, 'v) frame list \<Rightarrow> ('k, 'v) tree \<Rightarrow> bool" where
  "fix_inv ctx t \<longleftrightarrow> no_red_red t \<and> balanced t \<and> ctx_nrr ctx \<and> ctx_bal ctx (bheight t)
     \<and> root_black ctx"

subsection \<open>Search paths and insertion\<close>

fun path_ok :: "'k::linorder \<Rightarrow> ('k, 'v) frame list \<Rightarrow> bool" where
  "path_ok k [] = True"
| "path_ok k (LF a k' v c r # fs) = (k < k' \<and> path_ok k fs)"
| "path_ok k (RF l a k' v c # fs) = (k' < k \<and> path_ok k fs)"

fun ctx_lkeys :: "('k, 'v) frame list \<Rightarrow> 'k list" where
  "ctx_lkeys [] = []"
| "ctx_lkeys (LF a k v c r # fs) = ctx_lkeys fs"
| "ctx_lkeys (RF l a k v c # fs) = ctx_lkeys fs @ keys l @ [k]"

fun ctx_rkeys :: "('k, 'v) frame list \<Rightarrow> 'k list" where
  "ctx_rkeys [] = []"
| "ctx_rkeys (LF a k v c r # fs) = k # keys r @ ctx_rkeys fs"
| "ctx_rkeys (RF l a k v c # fs) = ctx_rkeys fs"

text \<open>The tree \<open>insert\<close> leaves: the new red leaf at the end of the search path, fixed up.\<close>

definition ins_tree :: "nat \<Rightarrow> 'k::linorder \<Rightarrow> 'v \<Rightarrow> ('k, 'v) tree \<Rightarrow> ('k, 'v) tree" where
  "ins_tree n k v T =
     (case descend k [] T of
        None \<Rightarrow> T
      | Some ctx \<Rightarrow>
          (case ifix ctx (Node Leaf n k v RED Leaf) of (ctx', t') \<Rightarrow> paint BLACK (plug ctx' t')))"

subsection \<open>Relations between the state before and after a call\<close>

definition preserves ::
  "(('k, 'v) tree_state \<Rightarrow> ('k, 'v) tree_state \<Rightarrow> bool) \<Rightarrow> ('a, 'k, 'v) prog \<Rightarrow> bool" where
  "preserves R m \<longleftrightarrow> (\<forall>s r s'. m s = Some (r, s') \<longrightarrow> R s s')"

definition alloc_le :: "('k, 'v) tree_state \<Rightarrow> ('k, 'v) tree_state \<Rightarrow> bool" where
  "alloc_le s s' \<longleftrightarrow> nxt s \<le> nxt s'
     \<and> (\<forall>a. heap s' a \<noteq> None \<longrightarrow> heap s a \<noteq> None \<or> (nxt s \<le> a \<and> a < nxt s'))"

definition links_only :: "('k, 'v) tree_state \<Rightarrow> ('k, 'v) tree_state \<Rightarrow> bool" where
  "links_only s s' \<longleftrightarrow> nxt s' = nxt s
     \<and> (\<forall>a. map_option (\<lambda>n. (key n, val n, color n)) (heap s' a)
            = map_option (\<lambda>n. (key n, val n, color n)) (heap s a))"

definition reflexive :: "('s \<Rightarrow> 's \<Rightarrow> bool) \<Rightarrow> bool" where
  "reflexive R \<longleftrightarrow> (\<forall>s. R s s)"

definition transitive :: "('s \<Rightarrow> 's \<Rightarrow> bool) \<Rightarrow> bool" where
  "transitive R \<longleftrightarrow> (\<forall>s s' s''. R s s' \<longrightarrow> R s' s'' \<longrightarrow> R s s'')"

text \<open>
  The ghost counters \<open>rotations\<close> and \<open>transplants\<close> count the calls of \<open>leftRotate\<close> and
  \<open>rightRotate\<close>, and of \<open>transplant\<close>.  \<open>counters_le\<close>: neither went down.
\<close>

definition counters_le :: "('k, 'v) tree_state \<Rightarrow> ('k, 'v) tree_state \<Rightarrow> bool" where
  "counters_le s s' \<longleftrightarrow> rotations s \<le> rotations s' \<and> transplants s \<le> transplants s'"

text \<open>
  \<open>root_by_primitives\<close>: neither counter went down, and if the root pointer is not what it was,
  one of the three primitives was called in between.
\<close>

definition root_by_primitives :: "('k, 'v) tree_state \<Rightarrow> ('k, 'v) tree_state \<Rightarrow> bool" where
  "root_by_primitives s s' \<longleftrightarrow> rotations s \<le> rotations s' \<and> transplants s \<le> transplants s'
     \<and> (root s' \<noteq> root s \<longrightarrow> rotations s < rotations s' \<or> transplants s < transplants s')"

subsection \<open>Next and previous node in order\<close>

text \<open>Address and key of the leftmost and of the rightmost node of a tree.\<close>

fun tree_min :: "('k, 'v) tree \<Rightarrow> (nat \<times> 'k) option" where
  "tree_min Leaf = None"
| "tree_min (Node l a k v c r) = (if l = Leaf then Some (a, k) else tree_min l)"

fun tree_max :: "('k, 'v) tree \<Rightarrow> (nat \<times> 'k) option" where
  "tree_max Leaf = None"
| "tree_max (Node l a k v c r) = (if r = Leaf then Some (a, k) else tree_max r)"

text \<open>
  The first ancestor whose left (right) subtree holds the hole: the next (previous) node
  in order, when the subtree at the hole has nothing to the right (left).
\<close>

fun ctx_next :: "('k, 'v) frame list \<Rightarrow> (nat \<times> 'k) option" where
  "ctx_next [] = None"
| "ctx_next (LF a k v c r # fs) = Some (a, k)"
| "ctx_next (RF l a k v c # fs) = ctx_next fs"

fun ctx_prev :: "('k, 'v) frame list \<Rightarrow> (nat \<times> 'k) option" where
  "ctx_prev [] = None"
| "ctx_prev (LF a k v c r # fs) = ctx_prev fs"
| "ctx_prev (RF l a k v c # fs) = Some (a, k)"

definition succ_of :: "('k, 'v) frame list \<Rightarrow> ('k, 'v) tree \<Rightarrow> (nat \<times> 'k) option" where
  "succ_of ctx r = (case tree_min r of Some x \<Rightarrow> Some x | None \<Rightarrow> ctx_next ctx)"

definition pred_of :: "('k, 'v) frame list \<Rightarrow> ('k, 'v) tree \<Rightarrow> (nat \<times> 'k) option" where
  "pred_of ctx l = (case tree_max l of Some x \<Rightarrow> Some x | None \<Rightarrow> ctx_prev ctx)"

text \<open>\<open>r\<close> is the node with the least key above \<open>k\<close>, or absent if there is none.\<close>

definition least_above ::
  "('k::linorder, 'v) tree_state \<Rightarrow> ('k, 'v) tree \<Rightarrow> 'k \<Rightarrow> nat option \<Rightarrow> bool" where
  "least_above s T k r \<longleftrightarrow>
     (case r of
        None \<Rightarrow> (\<forall>x\<in>set (keys T). x \<le> k)
      | Some b \<Rightarrow> b \<in> set (addrs T)
          \<and> (\<exists>m. heap s b = Some m \<and> k < key m \<and> key m \<in> set (keys T)
                \<and> (\<forall>x\<in>set (keys T). k < x \<longrightarrow> key m \<le> x)))"

definition greatest_below ::
  "('k::linorder, 'v) tree_state \<Rightarrow> ('k, 'v) tree \<Rightarrow> 'k \<Rightarrow> nat option \<Rightarrow> bool" where
  "greatest_below s T k r \<longleftrightarrow>
     (case r of
        None \<Rightarrow> (\<forall>x\<in>set (keys T). k \<le> x)
      | Some b \<Rightarrow> b \<in> set (addrs T)
          \<and> (\<exists>m. heap s b = Some m \<and> key m < k \<and> key m \<in> set (keys T)
                \<and> (\<forall>x\<in>set (keys T). x < k \<longrightarrow> x \<le> key m)))"

section \<open>The tree after the fixup of a removal\<close>

text \<open>
  The first step of a pass of the loop of \<open>deleteFixup\<close>, on the frame of the parent:
  a red sibling is rotated above the parent.  The result is the frame the rotation adds
  above the parent (none without a red sibling) and the parent's new frame.
\<close>

fun d_case1 :: "('k, 'v) frame \<Rightarrow> ('k, 'v) frame list \<times> ('k, 'v) frame" where
  "d_case1 (LF pa pk pv pc (Node wl wa wk wv RED wr)) = ([LF wa wk wv BLACK wr], LF pa pk pv RED wl)"
| "d_case1 (LF pa pk pv pc (Node wl wa wk wv BLACK wr)) = ([], LF pa pk pv pc (Node wl wa wk wv BLACK wr))"
| "d_case1 (LF pa pk pv pc Leaf) = ([], LF pa pk pv pc Leaf)"
| "d_case1 (RF (Node wl wa wk wv RED wr) pa pk pv pc) = ([RF wl wa wk wv BLACK], RF wr pa pk pv RED)"
| "d_case1 (RF (Node wl wa wk wv BLACK wr) pa pk pv pc) = ([], RF (Node wl wa wk wv BLACK wr) pa pk pv pc)"
| "d_case1 (RF Leaf pa pk pv pc) = ([], RF Leaf pa pk pv pc)"

datatype ('k, 'v) dstep = MoveUp "('k, 'v) tree" | Break "('k, 'v) tree"

text \<open>The preparatory rotation at the sibling when its far child is black.\<close>

fun d_case3L :: "('k, 'v) tree \<Rightarrow> ('k, 'v) tree" where
  "d_case3L (Node (Node sll sla slk slv slc slr) sa sk sv sc sr) =
     Node sll sla slk slv BLACK (Node slr sa sk sv RED sr)"
| "d_case3L t = t"

fun d_case3R :: "('k, 'v) tree \<Rightarrow> ('k, 'v) tree" where
  "d_case3R (Node sl sa sk sv sc (Node srl sra srk srv src srr)) =
     Node (Node sl sa sk sv RED srl) sra srk srv BLACK srr"
| "d_case3R t = t"

text \<open>The final rotation at the parent.\<close>

fun d_case4L :: "('k, 'v) tree \<Rightarrow> nat \<Rightarrow> 'k \<Rightarrow> 'v \<Rightarrow> color \<Rightarrow> ('k, 'v) tree \<Rightarrow> ('k, 'v) tree" where
  "d_case4L xt pa pk pv pc (Node fl fa fk fv fc fr) =
     Node (Node xt pa pk pv BLACK fl) fa fk fv pc (paint BLACK fr)"
| "d_case4L xt pa pk pv pc Leaf = Node xt pa pk pv BLACK Leaf"

fun d_case4R :: "('k, 'v) tree \<Rightarrow> nat \<Rightarrow> 'k \<Rightarrow> 'v \<Rightarrow> color \<Rightarrow> ('k, 'v) tree \<Rightarrow> ('k, 'v) tree" where
  "d_case4R xt pa pk pv pc (Node fl fa fk fv fc fr) =
     Node (paint BLACK fl) fa fk fv pc (Node fr pa pk pv BLACK xt)"
| "d_case4R xt pa pk pv pc Leaf = Node Leaf pa pk pv BLACK xt"

text \<open>
  The rest of the pass, on the parent's frame and the subtree \<open>xt\<close> of \<open>x\<close>: \<open>MoveUp t\<close>
  when \<open>x\<close> moves to the parent, whose subtree becomes \<open>t\<close>; \<open>Break t\<close> when the pass
  ends the loop, \<open>t\<close> being the subtree that replaces the parent's.
\<close>

fun d_rest :: "('k, 'v) frame \<Rightarrow> ('k, 'v) tree \<Rightarrow> ('k, 'v) dstep" where
  "d_rest (LF pa pk pv pc Leaf) xt = MoveUp (Node xt pa pk pv pc Leaf)"
| "d_rest (LF pa pk pv pc (Node sl sa sk sv sc sr)) xt =
     (if color_of sl = BLACK \<and> color_of sr = BLACK then
        MoveUp (Node xt pa pk pv pc (Node sl sa sk sv RED sr))
      else Break (d_case4L xt pa pk pv pc
             (if color_of sr = BLACK then d_case3L (Node sl sa sk sv sc sr)
              else Node sl sa sk sv sc sr)))"
| "d_rest (RF Leaf pa pk pv pc) xt = MoveUp (Node Leaf pa pk pv pc xt)"
| "d_rest (RF (Node sl sa sk sv sc sr) pa pk pv pc) xt =
     (if color_of sl = BLACK \<and> color_of sr = BLACK then
        MoveUp (Node (Node sl sa sk sv RED sr) pa pk pv pc xt)
      else Break (d_case4R xt pa pk pv pc
             (if color_of sl = BLACK then d_case3R (Node sl sa sk sv sc sr)
              else Node sl sa sk sv sc sr)))"

text \<open>The tree \<open>deleteFixup\<close> leaves, from the subtree \<open>xt\<close> of \<open>x\<close> in its context.\<close>

fun dfix :: "('k, 'v) frame list \<Rightarrow> ('k, 'v) tree \<Rightarrow> ('k, 'v) tree" where
  "dfix [] xt = paint BLACK xt"
| "dfix (f # rest) xt =
     (if color_of xt = RED then plug (f # rest) (paint BLACK xt)
      else (case d_rest (snd (d_case1 f)) xt of
              MoveUp t' \<Rightarrow>
                (if fst (d_case1 f) = [] then dfix rest t'
                 else plug (fst (d_case1 f) @ rest) (paint BLACK t'))
            | Break t' \<Rightarrow> paint BLACK (plug (fst (d_case1 f) @ rest) t')))"

text \<open>What one pass of the loop leaves in the heap, against its abstract result.\<close>

definition dstep_ok ::
  "('k, 'v) tree_state \<Rightarrow> ('k, 'v) frame list \<Rightarrow> ('k, 'v) dstep
    \<Rightarrow> bool \<times> nat option \<times> nat option \<Rightarrow> bool" where
  "dstep_ok s' ctx st r \<longleftrightarrow>
     (case st of
        MoveUp t' \<Rightarrow> r = (False, rootp t', ctx_parent ctx) \<and> focus s' ctx t' \<and> t' \<noteq> Leaf
      | Break t' \<Rightarrow> fst r = True \<and> fst (snd r) = root s' \<and> focus s' ctx t' \<and> t' \<noteq> Leaf)"

section \<open>The tree after a removal\<close>

text \<open>The node with key \<open>k\<close> on the search path, with its context.\<close>

fun locate ::
  "'k::linorder \<Rightarrow> ('k, 'v) frame list \<Rightarrow> ('k, 'v) tree
    \<Rightarrow> (('k, 'v) frame list \<times> ('k, 'v) tree) option" where
  "locate k ctx Leaf = None"
| "locate k ctx (Node l a k' v c r) =
     (if k < k' then locate k (LF a k' v c r # ctx) l
      else if k > k' then locate k (RF l a k' v c # ctx) r
      else Some (ctx, Node l a k' v c r))"

text \<open>The leftmost node of a tree, with the frames from it up to the root of the tree.\<close>

fun min_split ::
  "('k, 'v) frame list \<Rightarrow> ('k, 'v) tree \<Rightarrow> ('k, 'v) frame list \<times> ('k, 'v) tree" where
  "min_split ctx Leaf = (ctx, Leaf)"
| "min_split ctx (Node Leaf a k v c r) = (ctx, Node Leaf a k v c r)"
| "min_split ctx (Node (Node ll la lk lv lc lr) a k v c r) =
     min_split (LF a k v c r # ctx) (Node ll la lk lv lc lr)"

text \<open>
  What \<open>remove\<close> leaves before the fixup, from the subtree of \<open>z\<close> in its context: the colour
  \<open>yOriginalColor\<close>, the subtree of \<open>x\<close> and the context of \<open>x\<close>.  With two children, the
  leftmost node \<open>y\<close> of the right subtree stands where \<open>z\<close> stood, with the colour of \<open>z\<close>.
\<close>

fun del_at ::
  "('k, 'v) frame list \<Rightarrow> ('k, 'v) tree \<Rightarrow> color \<times> ('k, 'v) frame list \<times> ('k, 'v) tree" where
  "del_at ctx Leaf = (RED, ctx, Leaf)"
| "del_at ctx (Node Leaf za zk zv zc zr) = (zc, ctx, zr)"
| "del_at ctx (Node (Node ll la lk lv lc lr) za zk zv zc Leaf) = (zc, ctx, Node ll la lk lv lc lr)"
| "del_at ctx (Node (Node ll la lk lv lc lr) za zk zv zc (Node rl ra rk rv rc rr)) =
     (case min_split [] (Node rl ra rk rv rc rr) of
        (spine, Leaf) \<Rightarrow> (RED, ctx, Leaf)
      | (spine, Node yl ya yk yv yc yr) \<Rightarrow>
          (yc, spine @ RF (Node ll la lk lv lc lr) ya yk yv zc # ctx, yr))"

definition del_tree :: "'k::linorder \<Rightarrow> ('k, 'v) tree \<Rightarrow> ('k, 'v) tree" where
  "del_tree k T =
     (case locate k [] T of
        None \<Rightarrow> T
      | Some (ctx, z) \<Rightarrow>
          (case del_at ctx z of (c, cx, x) \<Rightarrow> if c = BLACK then dfix cx x else plug cx x))"

section \<open>Sequences of calls\<close>

text \<open>A call of \<open>insert\<close> or of \<open>remove\<close>.\<close>

datatype ('k, 'v) call = Insert 'k 'v | Remove 'k

fun perform :: "('k::linorder, 'v) call \<Rightarrow> (unit, 'k, 'v) prog" where
  "perform (Insert k v) = insert_rbt k v"
| "perform (Remove k) = remove_rbt k"

text \<open>
  A sequence of calls from a state.  A call that raises \<open>DuplicateKey\<close> or \<open>KeyNotFound\<close>
  is passed over: the state it left is kept.  The result is \<open>None\<close> when a call does not
  return or dereferences a null pointer.
\<close>

fun run :: "('k::linorder, 'v) call list \<Rightarrow> ('k, 'v) tree_state \<Rightarrow> ('k, 'v) tree_state option"
  where
  "run [] s = Some s"
| "run (c # cs) s =
     (case perform c s of
        None \<Rightarrow> None
      | Some (Inr u, s') \<Rightarrow> run cs s'
      | Some (Inl DuplicateKey, s') \<Rightarrow> run cs s'
      | Some (Inl KeyNotFound, s') \<Rightarrow> run cs s'
      | Some (Inl NullDeref, s') \<Rightarrow> None)"

text \<open>A sequence of calls that all succeed: \<open>None\<close> when one of them does not.\<close>

fun run_ok :: "('k::linorder, 'v) call list \<Rightarrow> ('k, 'v) tree_state \<Rightarrow> ('k, 'v) tree_state option"
  where
  "run_ok [] s = Some s"
| "run_ok (c # cs) s =
     (case perform c s of
        None \<Rightarrow> None
      | Some (Inr u, s') \<Rightarrow> run_ok cs s'
      | Some (Inl e, s') \<Rightarrow> None)"

text \<open>The keys of the nodes at the addresses \<open>as\<close>, in that order.\<close>

definition visited_keys :: "('k, 'v) tree_state \<Rightarrow> nat list \<Rightarrow> 'k list" where
  "visited_keys s as = map (\<lambda>a. key (the (heap s a))) as"


text \<open>Every node has smaller keys in its left subtree and larger keys in its right subtree.\<close>

fun bst :: "('k::linorder, 'v) tree \<Rightarrow> bool" where
  "bst Leaf = True"
| "bst (Node l a k v c r) =
     ((\<forall>x\<in>set (keys l). x < k) \<and> (\<forall>x\<in>set (keys r). k < x) \<and> bst l \<and> bst r)"

section \<open>Running programs\<close>

named_theorems prog_simps

lemma ret_apply [prog_simps]: "ret x s = Some (Inr x, s)"
  by (simp add: ret_def)

lemma throw_apply [prog_simps]: "throw e s = Some (Inl e, s)"
  by (simp add: throw_def)

lemma bind_apply [prog_simps]:
  "bind m f s = (case m s of None \<Rightarrow> None
                 | Some (Inl e, s') \<Rightarrow> Some (Inl e, s')
                 | Some (Inr x, s') \<Rightarrow> f x s')"
  by (simp add: bind_def)

lemma seq_apply [prog_simps]:
  "seq m n s = (case m s of None \<Rightarrow> None
                 | Some (Inl e, s') \<Rightarrow> Some (Inl e, s')
                 | Some (Inr x, s') \<Rightarrow> n s')"
  by (simp add: seq_def bind_def)

lemma get_apply [prog_simps]:
  "get f None s = Some (Inl NullDeref, s)"
  "get f (Some a) s = (case heap s a of None \<Rightarrow> Some (Inl NullDeref, s)
                        | Some n \<Rightarrow> Some (Inr (f n), s))"
  by (simp_all add: get_def)

lemma put_apply [prog_simps]:
  "put None g s = Some (Inl NullDeref, s)"
  "put (Some a) g s = (case heap s a of None \<Rightarrow> Some (Inl NullDeref, s)
                        | Some n \<Rightarrow> Some (Inr (), s\<lparr>heap := (heap s)(a \<mapsto> g n)\<rparr>))"
  by (simp_all add: put_def)

lemma get_root_apply [prog_simps]: "get_root s = Some (Inr (root s), s)"
  by (simp add: get_root_def)

lemma set_root_apply [prog_simps]: "set_root p s = Some (Inr (), s\<lparr>root := p\<rparr>)"
  by (simp add: set_root_def)

lemma delete_node_apply [prog_simps]:
  "delete_node None s = Some (Inr (), s)"
  "delete_node (Some a) s = (case heap s a of None \<Rightarrow> Some (Inl NullDeref, s)
                        | Some n \<Rightarrow> Some (Inr (), s\<lparr>heap := (heap s)(a := None)\<rparr>))"
  by (simp_all add: delete_node_def)

lemma new_node_apply [prog_simps]:
  "new_node k v s = Some (Inr (Some (nxt s)),
     s\<lparr>heap := (heap s)(nxt s \<mapsto>
          \<lparr>key = k, val = v, color = RED, parent = None, left = None, right = None\<rparr>),
       nxt := Suc (nxt s)\<rparr>)"
  by (simp add: new_node_def)

lemma count_rotation_apply [prog_simps]:
  "count_rotation s = Some (Inr (), s\<lparr>rotations := Suc (rotations s)\<rparr>)"
  by (simp add: count_rotation_def)

lemma count_transplant_apply [prog_simps]:
  "count_transplant s = Some (Inr (), s\<lparr>transplants := Suc (transplants s)\<rparr>)"
  by (simp add: count_transplant_def)

lemmas field_defs = get2_def get3_def set_color_def set_parent_def set_left_def set_right_def
  is_red_def null_or_black_def both_null_or_black_def non_black_def

section \<open>Reading a stored tree\<close>

lemma rep_frame [simp]: "a \<notin> set (addrs t) \<Longrightarrow> rep (h(a := x)) par t = rep h par t"
  by (induction t arbitrary: par) auto

lemma rep_addrs_allocated: "rep h par t \<Longrightarrow> a \<in> set (addrs t) \<Longrightarrow> h a \<noteq> None"
  by (induction t arbitrary: par) auto

lemma search_loop_rep:
  "rep (heap s) par t \<Longrightarrow> search_loop k (rootp t) s = Some (Inr (lookup t k), s)"
proof (induction t arbitrary: par)
  case Leaf
  then show ?case by (subst search_loop.simps) (simp add: prog_simps)
next
  case (Node l a k' v c r)
  then show ?case by (subst search_loop.simps) (auto simp add: prog_simps)
qed

lemma inOrderHelper_rep:
  "rep (heap s) par t \<Longrightarrow> inOrderHelper (rootp t) s = Some (Inr (addrs t), s)"
proof (induction t arbitrary: par)
  case Leaf
  then show ?case by (subst inOrderHelper.simps) (simp add: prog_simps)
next
  case (Node l a k' v c r)
  then show ?case by (subst inOrderHelper.simps) (auto simp add: prog_simps)
qed

lemma lookup_keys: "lookup t k = Some a \<Longrightarrow> k \<in> set (keys t)"
  by (induction t) (auto split: if_splits)

lemma lookup_absent: "k \<notin> set (keys t) \<Longrightarrow> lookup t k = None"
  using lookup_keys by (cases "lookup t k") auto

lemma lookup_present:
  "sorted_wrt (<) (keys t) \<Longrightarrow> k \<in> set (keys t) \<Longrightarrow> lookup t k \<noteq> None"
  by (induction t) (auto simp: sorted_wrt_append)

lemma lookup_addr: "lookup t k = Some a \<Longrightarrow> a \<in> set (addrs t)"
  by (induction t) (auto split: if_splits)

lemma color_neq [simp]: "(c \<noteq> BLACK) = (c = RED)" "(c \<noteq> RED) = (c = BLACK)"
  by (cases c; simp)+

lemma rep_root_heap:
  "rep h par t \<Longrightarrow> rootp t = Some a \<Longrightarrow>
   \<exists>n. h a = Some n \<and> color n = color_of t \<and> parent n = par"
  by (cases t) auto

lemma non_black_rep:
  "rep (heap s) par t \<Longrightarrow> non_black (rootp t) s = Some (Inr (color_of t = RED), s)"
  by (cases t) (simp_all add: non_black_def prog_simps)

lemma is_red_rep:
  "rep (heap s) par t \<Longrightarrow> is_red (rootp t) s = Some (Inr (color_of t = RED), s)"
  by (cases t) (simp_all add: is_red_def prog_simps)

lemma null_or_black_rep:
  "rep (heap s) par t \<Longrightarrow> null_or_black (rootp t) s = Some (Inr (color_of t = BLACK), s)"
  by (cases t) (simp_all add: null_or_black_def prog_simps)

lemma validateHelper_rep:
  "rep (heap s) par t \<Longrightarrow> 0 \<le> bc \<Longrightarrow> pbc = - 1 \<or> 0 \<le> pbc \<Longrightarrow>
   \<exists>b p'. validateHelper (rootp t) bc pbc s = Some (Inr (b, p'), s)
     \<and> (b \<longleftrightarrow> no_red_red t \<and> balanced t \<and> (pbc \<noteq> - 1 \<longrightarrow> bc + int (bheight t) = pbc))
     \<and> (b \<longrightarrow> p' = bc + int (bheight t))"
proof (induction t arbitrary: par bc pbc)
  case Leaf
  then show ?case by (subst validateHelper.simps) (auto simp add: prog_simps)
next
  case (Node l a k v c r)
  let ?bc = "if c = BLACK then bc + 1 else bc"
  have hl: "rep (heap s) (Some a) l" and hr: "rep (heap s) (Some a) r"
    and ha: "heap s a = Some \<lparr>key = k, val = v, color = c, parent = par, left = rootp l, right = rootp r\<rparr>"
    using Node.prems(1) by auto
  have bc': "0 \<le> ?bc" using Node.prems(2) by simp
  obtain b1 p1 where
    l1: "validateHelper (rootp l) ?bc pbc s = Some (Inr (b1, p1), s)"
    and l2: "b1 \<longleftrightarrow> no_red_red l \<and> balanced l \<and> (pbc \<noteq> - 1 \<longrightarrow> ?bc + int (bheight l) = pbc)"
    and l3: "b1 \<longrightarrow> p1 = ?bc + int (bheight l)"
    using Node.IH(1)[OF hl bc' Node.prems(3)] by blast
  have p1: "b1 \<Longrightarrow> p1 = - 1 \<or> 0 \<le> p1" using l3 bc' by auto
  note nb = non_black_rep[OF hl] non_black_rep[OF hr]
  show ?case
  proof (cases b1)
    case False
    have "validateHelper (Some a) bc pbc s =
       Some (Inr (False, if c = RED \<and> (color_of l = RED \<or> color_of r = RED) then pbc else p1), s)"
      using ha nb l1 False by (cases c; subst validateHelper.simps; simp add: prog_simps)
    then show ?thesis using False l2 by auto
  next
    case True
    obtain b2 p2 where
      r1: "validateHelper (rootp r) ?bc p1 s = Some (Inr (b2, p2), s)"
      and r2: "b2 \<longleftrightarrow> no_red_red r \<and> balanced r \<and> (p1 \<noteq> - 1 \<longrightarrow> ?bc + int (bheight r) = p1)"
      and r3: "b2 \<longrightarrow> p2 = ?bc + int (bheight r)"
      using Node.IH(2)[OF hr bc' p1[OF True]] by blast
    have p1': "p1 = ?bc + int (bheight l)" "p1 \<noteq> - 1" using True l3 bc' by auto
    have "validateHelper (Some a) bc pbc s =
       Some (Inr (if c = RED \<and> (color_of l = RED \<or> color_of r = RED) then (False, pbc) else (b2, p2)), s)"
      using ha nb l1 True r1 by (cases c; subst validateHelper.simps; simp add: prog_simps)
    then show ?thesis using True l2 r2 r3 p1' by auto
  qed
qed

lemma validate_rep:
  assumes "rep (heap s) None T" "root s = rootp T"
  shows "validate s = Some (Inr (rbt T), s)"
proof (cases T)
  case Leaf
  then show ?thesis using assms by (simp add: validate_def prog_simps rbt_def)
next
  case (Node l a k v c r)
  obtain b p' where v: "validateHelper (rootp T) 0 (- 1) s = Some (Inr (b, p'), s)"
    and b: "b \<longleftrightarrow> no_red_red T \<and> balanced T"
    using validateHelper_rep[OF assms(1), of 0 "- 1"] by auto
  show ?thesis using assms Node v b
    by (auto simp add: validate_def prog_simps rbt_def simp del: no_red_red.simps balanced.simps)
qed

lemma insert_loop_rep:
  "rep (heap s) (ctx_parent ctx) t \<Longrightarrow>
   insert_loop k (ctx_parent ctx) (rootp t) s =
     (case descend k ctx t of None \<Rightarrow> Some (Inl DuplicateKey, s)
      | Some ctx' \<Rightarrow> Some (Inr (ctx_parent ctx'), s))"
proof (induction t arbitrary: ctx)
  case Leaf
  then show ?case by (subst insert_loop.simps) (simp add: prog_simps)
next
  case (Node l a k' v c r)
  have hl: "rep (heap s) (ctx_parent (LF a k' v c r # ctx)) l"
    and hr: "rep (heap s) (ctx_parent (RF l a k' v c # ctx)) r"
    using Node.prems by auto
  show ?case
    apply (subst insert_loop.simps)
    using Node.prems Node.IH(1)[OF hl] Node.IH(2)[OF hr]
    by (auto simp add: prog_simps)
qed

lemma descend_None: "descend k ctx t = None \<longleftrightarrow> lookup t k \<noteq> None"
  by (induction t arbitrary: ctx) auto

lemma example_tree_in: "tree_in example_state example_tree"
  by (simp add: tree_in_def example_state_def example_tree_def)

lemma example_alloc_ok: "alloc_ok example_state"
  by (simp add: alloc_ok_def example_state_def)

section \<open>Subtrees in their context\<close>

lemma ctx_parent_single [simp]: "ctx_parent [f] = ctx_parent (f # fs)"
  by (cases f) auto

lemma rootp_plug1 [simp]: "rootp (plug1 f t) = ctx_parent [f]"
  by (cases f) auto

lemma rootp_plug: "rootp (plug ctx t) = ctx_top ctx (rootp t)"
  by (induction ctx arbitrary: t) auto

lemma rep_plug: "rep h None (plug ctx t) \<longleftrightarrow> rep h (ctx_parent ctx) t \<and> rep_ctx h ctx (rootp t)"
proof (induction ctx arbitrary: t)
  case Nil
  then show ?case by simp
next
  case (Cons f fs)
  then show ?case by (cases f) auto
qed

lemma set_addrs_plug: "set (addrs (plug ctx t)) = set (addrs t) \<union> set (ctx_addrs ctx)"
proof (induction ctx arbitrary: t)
  case Nil
  then show ?case by simp
next
  case (Cons f fs)
  then show ?case by (cases f) auto
qed

lemma distinct_plug: "distinct (addrs (plug ctx t)) \<longleftrightarrow> distinct (addrs t @ ctx_addrs ctx)"
proof (induction ctx arbitrary: t)
  case Nil
  then show ?case by simp
next
  case (Cons f fs)
  then show ?case by (cases f) auto
qed

lemma focus_tree_in: "focus s ctx t \<longleftrightarrow> tree_in s (plug ctx t)"
  by (simp add: focus_def tree_in_def rep_plug rootp_plug distinct_plug)

lemma rep_ctx_frame [simp]:
  "a \<notin> set (ctx_addrs ctx) \<Longrightarrow> rep_ctx (h(a := x)) ctx p = rep_ctx h ctx p"
  by (induction h ctx p rule: rep_ctx.induct) simp_all

lemma rootp_notin [simp]:
  "a \<notin> set (addrs t) \<Longrightarrow> rootp t \<noteq> Some a"
  "a \<notin> set (addrs t) \<Longrightarrow> Some a \<noteq> rootp t"
  by (cases t; auto)+

lemma ctx_top_cases: "ctx_top fs (Some a) = Some b \<Longrightarrow> b = a \<or> b \<in> set (ctx_addrs fs)"
proof (induction fs arbitrary: a)
  case Nil
  then show ?case by simp
next
  case (Cons f fs)
  then show ?case by (cases f) auto
qed

lemma ctx_top_notin [simp]:
  "z \<noteq> a \<Longrightarrow> z \<notin> set (ctx_addrs fs) \<Longrightarrow> ctx_top fs (Some a) \<noteq> Some z"
  "z \<noteq> a \<Longrightarrow> z \<notin> set (ctx_addrs fs) \<Longrightarrow> Some z \<noteq> ctx_top fs (Some a)"
proof -
  assume a: "z \<noteq> a" "z \<notin> set (ctx_addrs fs)"
  show "ctx_top fs (Some a) \<noteq> Some z"
  proof
    assume "ctx_top fs (Some a) = Some z"
    from ctx_top_cases[OF this] a show False by auto
  qed
  then show "Some z \<noteq> ctx_top fs (Some a)" by (simp add: eq_commute)
qed

lemma nat_eq_commute: "(a::nat) = b \<longleftrightarrow> b = a"
  by auto

subsection \<open>Rotations\<close>

lemma leftRotate_focus:
  assumes "focus s ctx (Node a x kx vx cx (Node b y ky vy cy c))"
  shows "\<exists>s'. leftRotate (Some x) s = Some (Inr (), s')
     \<and> focus s' ctx (Node (Node a x kx vx cx b) y ky vy cy c)
     \<and> rotations s' = Suc (rotations s) \<and> transplants s' = transplants s \<and> same_alloc s s'"
  using assms
  apply (cases ctx rule: ctx_parent.cases; cases b)
  apply (simp_all add: focus_def leftRotate_def prog_simps field_defs same_alloc_def)
  done

lemma rightRotate_focus:
  assumes "focus s ctx (Node (Node a x kx vx cx b) y ky vy cy c)"
  shows "\<exists>s'. rightRotate (Some y) s = Some (Inr (), s')
     \<and> focus s' ctx (Node a x kx vx cx (Node b y ky vy cy c))
     \<and> rotations s' = Suc (rotations s) \<and> transplants s' = transplants s \<and> same_alloc s s'"
  using assms
  apply (cases ctx rule: ctx_parent.cases; cases b)
  apply (simp_all add: focus_def rightRotate_def prog_simps field_defs same_alloc_def)
  done

section \<open>The loop of insertFixup\<close>

lemma insertFixup_cond_focus:
  assumes "focus s ctx t" "t \<noteq> Leaf"
  shows "insertFixup_cond (rootp t) s =
     Some (Inr (case ctx of [] \<Rightarrow> False | p # _ \<Rightarrow> frame_color p = RED), s)"
  using assms
  apply (cases ctx rule: ctx_parent.cases; cases t)
  apply (simp_all add: focus_def insertFixup_cond_def prog_simps field_defs nat_eq_commute)
  done

lemma body_L_red_L:
  assumes "focus s (LF pa pk pv RED pr # LF ga gk gv gc (Node ul ua uk uv RED ur) # ctx) (Node zl z kz vz zc zr)"
  shows "\<exists>s'. insertFixup_body (Some z) s = Some (Inr (Some ga), s')
     \<and> focus s' ctx (Node (Node (Node zl z kz vz zc zr) pa pk pv BLACK pr) ga gk gv RED (Node ul ua uk uv BLACK ur))
     \<and> rotations s' = rotations s"
  using assms
  apply (cases ctx rule: ctx_parent.cases)
  apply (simp_all add: focus_def insertFixup_body_def prog_simps field_defs nat_eq_commute Int_Un_distrib Int_Un_distrib2 Int_commute)
  done

lemma body_L_red_R:
  assumes "focus s (RF pl pa pk pv RED # LF ga gk gv gc (Node ul ua uk uv RED ur) # ctx) (Node zl z kz vz zc zr)"
  shows "\<exists>s'. insertFixup_body (Some z) s = Some (Inr (Some ga), s')
     \<and> focus s' ctx (Node (Node pl pa pk pv BLACK (Node zl z kz vz zc zr)) ga gk gv RED (Node ul ua uk uv BLACK ur))
     \<and> rotations s' = rotations s"
  using assms
  apply (cases ctx rule: ctx_parent.cases)
  apply (simp_all add: focus_def insertFixup_body_def prog_simps field_defs nat_eq_commute Int_Un_distrib Int_Un_distrib2 Int_commute)
  done

lemma body_L_black_L:
  assumes "focus s (LF pa pk pv RED pr # LF ga gk gv gc u # ctx) (Node zl z kz vz zc zr)"
    and "color_of u = BLACK"
  shows "\<exists>s'. insertFixup_body (Some z) s = Some (Inr (Some z), s')
     \<and> focus s' (LF pa pk pv BLACK (Node pr ga gk gv RED u) # ctx) (Node zl z kz vz zc zr)
     \<and> rotations s' = Suc (rotations s)"
  using assms
  apply (cases ctx rule: ctx_parent.cases; cases u; cases pr)
  apply (simp_all add: focus_def insertFixup_body_def rightRotate_def prog_simps field_defs nat_eq_commute Int_Un_distrib Int_Un_distrib2 Int_commute)
  done

lemma body_L_black_R:
  assumes "focus s (RF pl pa pk pv RED # LF ga gk gv gc u # ctx) (Node zl z kz vz zc zr)"
    and "color_of u = BLACK"
  shows "\<exists>s'. insertFixup_body (Some z) s = Some (Inr (Some pa), s')
     \<and> focus s' (LF z kz vz BLACK (Node zr ga gk gv RED u) # ctx) (Node pl pa pk pv RED zl)
     \<and> rotations s' = Suc (Suc (rotations s))"
  using assms
  apply (cases ctx rule: ctx_parent.cases; cases u; cases zl; cases zr)
  apply (simp_all add: focus_def insertFixup_body_def leftRotate_def rightRotate_def prog_simps field_defs nat_eq_commute Int_Un_distrib Int_Un_distrib2 Int_commute)
  done

lemma body_R_red_L:
  assumes "focus s (LF pa pk pv RED pr # RF (Node ul ua uk uv RED ur) ga gk gv gc # ctx) (Node zl z kz vz zc zr)"
  shows "\<exists>s'. insertFixup_body (Some z) s = Some (Inr (Some ga), s')
     \<and> focus s' ctx (Node (Node ul ua uk uv BLACK ur) ga gk gv RED (Node (Node zl z kz vz zc zr) pa pk pv BLACK pr))
     \<and> rotations s' = rotations s"
  using assms
  apply (cases ctx rule: ctx_parent.cases)
  apply (simp_all add: focus_def insertFixup_body_def prog_simps field_defs nat_eq_commute Int_Un_distrib Int_Un_distrib2 Int_commute)
  done

lemma body_R_red_R:
  assumes "focus s (RF pl pa pk pv RED # RF (Node ul ua uk uv RED ur) ga gk gv gc # ctx) (Node zl z kz vz zc zr)"
  shows "\<exists>s'. insertFixup_body (Some z) s = Some (Inr (Some ga), s')
     \<and> focus s' ctx (Node (Node ul ua uk uv BLACK ur) ga gk gv RED (Node pl pa pk pv BLACK (Node zl z kz vz zc zr)))
     \<and> rotations s' = rotations s"
  using assms
  apply (cases ctx rule: ctx_parent.cases)
  apply (simp_all add: focus_def insertFixup_body_def prog_simps field_defs nat_eq_commute Int_Un_distrib Int_Un_distrib2 Int_commute)
  done

lemma body_R_black_R:
  assumes "focus s (RF pl pa pk pv RED # RF u ga gk gv gc # ctx) (Node zl z kz vz zc zr)"
    and "color_of u = BLACK"
  shows "\<exists>s'. insertFixup_body (Some z) s = Some (Inr (Some z), s')
     \<and> focus s' (RF (Node u ga gk gv RED pl) pa pk pv BLACK # ctx) (Node zl z kz vz zc zr)
     \<and> rotations s' = Suc (rotations s)"
  using assms
  apply (cases ctx rule: ctx_parent.cases; cases u; cases pl)
  apply (simp_all add: focus_def insertFixup_body_def leftRotate_def prog_simps field_defs nat_eq_commute Int_Un_distrib Int_Un_distrib2 Int_commute)
  done

lemma body_R_black_L:
  assumes "focus s (LF pa pk pv RED pr # RF u ga gk gv gc # ctx) (Node zl z kz vz zc zr)"
    and "color_of u = BLACK"
  shows "\<exists>s'. insertFixup_body (Some z) s = Some (Inr (Some pa), s')
     \<and> focus s' (RF (Node u ga gk gv RED zl) z kz vz BLACK # ctx) (Node zr pa pk pv RED pr)
     \<and> rotations s' = Suc (Suc (rotations s))"
  using assms
  apply (cases ctx rule: ctx_parent.cases; cases u; cases zl; cases zr)
  apply (simp_all add: focus_def insertFixup_body_def leftRotate_def rightRotate_def prog_simps field_defs nat_eq_commute Int_Un_distrib Int_Un_distrib2 Int_commute)
  done

lemma insertFixup_body_focus:
  assumes "focus s (p # g # ctx) t" and "t \<noteq> Leaf" and "frame_color p = RED"
  shows "\<exists>s' z'. insertFixup_body (rootp t) s = Some (Inr z', s')
     \<and> (case ifix_step p g t of
           Inl t' \<Rightarrow> focus s' ctx t' \<and> z' = rootp t' \<and> t' \<noteq> Leaf \<and> rotations s' = rotations s
         | Inr (f, t') \<Rightarrow> focus s' (f # ctx) t' \<and> z' = rootp t' \<and> t' \<noteq> Leaf
             \<and> frame_color f = BLACK \<and> rotations s' \<le> rotations s + 2)"
proof -
  obtain zl z kz vz zc zr where t: "t = Node zl z kz vz zc zr"
    using assms(2) by (cases t) auto
  show ?thesis
  proof (cases g)
    case g: (LF ga gk gv gc u)
    show ?thesis
    proof (cases "color_of u = RED")
      case True
      then obtain ul ua uk uv ur where u: "u = Node ul ua uk uv RED ur"
        by (cases u) auto
      show ?thesis
      proof (cases p)
        case (LF pa pk pv pc pr)
        then show ?thesis using assms(1,3) body_L_red_L[of s pa pk pv pr ga gk gv gc ul ua uk uv ur ctx zl z kz vz zc zr]
          by (auto simp add: t g u)
      next
        case (RF pl pa pk pv pc)
        then show ?thesis using assms(1,3) body_L_red_R[of s pl pa pk pv ga gk gv gc ul ua uk uv ur ctx zl z kz vz zc zr]
          by (auto simp add: t g u)
      qed
    next
      case False
      then have b: "color_of u = BLACK" by simp
      show ?thesis
      proof (cases p)
        case (LF pa pk pv pc pr)
        then show ?thesis using assms(1,3) b body_L_black_L[of s pa pk pv pr ga gk gv gc u ctx zl z kz vz zc zr]
          by (auto simp add: t g)
      next
        case (RF pl pa pk pv pc)
        then show ?thesis using assms(1,3) b body_L_black_R[of s pl pa pk pv ga gk gv gc u ctx zl z kz vz zc zr]
          by (auto simp add: t g)
      qed
    qed
  next
    case g: (RF u ga gk gv gc)
    show ?thesis
    proof (cases "color_of u = RED")
      case True
      then obtain ul ua uk uv ur where u: "u = Node ul ua uk uv RED ur"
        by (cases u) auto
      show ?thesis
      proof (cases p)
        case (LF pa pk pv pc pr)
        then show ?thesis using assms(1,3) body_R_red_L[of s pa pk pv pr ul ua uk uv ur ga gk gv gc ctx zl z kz vz zc zr]
          by (auto simp add: t g u)
      next
        case (RF pl pa pk pv pc)
        then show ?thesis using assms(1,3) body_R_red_R[of s pl pa pk pv ul ua uk uv ur ga gk gv gc ctx zl z kz vz zc zr]
          by (auto simp add: t g u)
      qed
    next
      case False
      then have b: "color_of u = BLACK" by simp
      show ?thesis
      proof (cases p)
        case (LF pa pk pv pc pr)
        then show ?thesis using assms(1,3) b body_R_black_L[of s pa pk pv pr u ga gk gv gc ctx zl z kz vz zc zr]
          by (auto simp add: t g)
      next
        case (RF pl pa pk pv pc)
        then show ?thesis using assms(1,3) b body_R_black_R[of s pl pa pk pv u ga gk gv gc ctx zl z kz vz zc zr]
          by (auto simp add: t g)
      qed
    qed
  qed
qed

lemma insertFixup_loop_focus:
  assumes "focus s ctx t" and "t \<noteq> Leaf" and "root_black ctx"
  shows "\<exists>s'. insertFixup_loop (rootp t) s = Some (Inr (), s')
     \<and> focus s' (fst (ifix ctx t)) (snd (ifix ctx t))
     \<and> rotations s' \<le> rotations s + 2"
  using assms
proof (induction ctx t arbitrary: s rule: ifix.induct)
  case (3 p g ctx t)
  note cond = insertFixup_cond_focus[OF "3.prems"(1,2)]
  show ?case
  proof (cases "frame_color p = RED")
    case False
    then show ?thesis using cond "3.prems"(1)
      by (subst insertFixup_loop.simps) (simp add: prog_simps)
  next
    case True
    obtain s1 z1 where
      b: "insertFixup_body (rootp t) s = Some (Inr z1, s1)"
      and c: "case ifix_step p g t of
           Inl t' \<Rightarrow> focus s1 ctx t' \<and> z1 = rootp t' \<and> t' \<noteq> Leaf \<and> rotations s1 = rotations s
         | Inr (f, t') \<Rightarrow> focus s1 (f # ctx) t' \<and> z1 = rootp t' \<and> t' \<noteq> Leaf
             \<and> frame_color f = BLACK \<and> rotations s1 \<le> rotations s + 2"
      using insertFixup_body_focus[OF "3.prems"(1,2) True] by blast
    show ?thesis
    proof (cases "ifix_step p g t")
      case (Inl t')
      have rb: "root_black ctx" using "3.prems"(3) by (auto simp add: root_black_def split: if_splits)
      from c Inl have f1: "focus s1 ctx t'" "z1 = rootp t'" "t' \<noteq> Leaf" "rotations s1 = rotations s"
        by auto
      obtain s2 where "insertFixup_loop (rootp t') s1 = Some (Inr (), s2)"
        "focus s2 (fst (ifix ctx t')) (snd (ifix ctx t'))" "rotations s2 \<le> rotations s1 + 2"
        using "3.IH"[OF True Inl f1(1) f1(3) rb] by blast
      then show ?thesis using cond True b Inl f1
        by (subst insertFixup_loop.simps) (simp add: prog_simps)
    next
      case (Inr ft)
      obtain f t' where ft: "ft = (f, t')" by (cases ft)
      from c Inr ft have f1: "focus s1 (f # ctx) t'" "z1 = rootp t'" "t' \<noteq> Leaf"
        "frame_color f = BLACK" "rotations s1 \<le> rotations s + 2"
        by auto
      have "insertFixup_loop (rootp t') s1 = Some (Inr (), s1)"
        using insertFixup_cond_focus[OF f1(1,3)] f1(4)
        by (subst insertFixup_loop.simps) (simp add: prog_simps)
      then show ?thesis using cond True b Inr ft f1
        by (subst insertFixup_loop.simps) (simp add: prog_simps)
    qed
  qed
next
  case (1 t)
  then show ?case using insertFixup_cond_focus[OF "1.prems"(1,2)]
    by (subst insertFixup_loop.simps) (simp add: prog_simps)
next
  case (2 p t)
  then show ?case using insertFixup_cond_focus[OF "2.prems"(1,2)]
    by (subst insertFixup_loop.simps) (simp add: prog_simps root_black_def)
qed

section \<open>Invariants of the insertion fixup\<close>

lemma color_of_plug1 [simp]: "color_of (plug1 f t) = frame_color f"
  by (cases f) auto

lemma color_of_plug:
  "color_of (plug ctx t) = (if ctx = [] then color_of t else frame_color (last ctx))"
  by (induction ctx arbitrary: t) auto

lemma no_red_red_plug:
  "no_red_red (plug ctx t) \<longleftrightarrow>
     no_red_red t \<and> ctx_nrr ctx \<and> (ctx \<noteq> [] \<and> frame_color (hd ctx) = RED \<longrightarrow> color_of t = BLACK)"
proof (induction ctx arbitrary: t)
  case Nil
  then show ?case by simp
next
  case (Cons f fs)
  show ?case by (cases f) (auto simp add: Cons.IH)
qed

lemma balanced_plug:
  "balanced (plug ctx t) \<longleftrightarrow> balanced t \<and> ctx_bal ctx (bheight t)"
proof (induction ctx arbitrary: t)
  case Nil
  then show ?case by simp
next
  case (Cons f fs)
  show ?case by (cases f) (auto simp add: Cons.IH)
qed

lemma fix_inv_rbt:
  assumes "fix_inv ctx t" and "ctx \<noteq> [] \<longrightarrow> frame_color (hd ctx) = BLACK"
  shows "rbt (paint BLACK (plug ctx t))"
proof (cases "ctx = []")
  case True
  then show ?thesis using assms by (cases t) (auto simp add: fix_inv_def rbt_def)
next
  case False
  then have c: "color_of (plug ctx t) = BLACK"
    using assms(1) by (auto simp add: color_of_plug fix_inv_def root_black_def)
  then have "paint BLACK (plug ctx t) = plug ctx t"
    by (cases "plug ctx t") auto
  then show ?thesis using assms False c
    by (simp add: rbt_def no_red_red_plug balanced_plug fix_inv_def)
qed

lemma keys_plug_cong: "keys t = keys t' \<Longrightarrow> keys (plug ctx t) = keys (plug ctx t')"
proof (induction ctx arbitrary: t t')
  case Nil
  then show ?case by simp
next
  case (Cons f fs)
  then show ?case by (cases f) auto
qed

lemma keys_paint [simp]: "keys (paint c t) = keys t"
  by (cases t) auto

lemma ifix_step_inv:
  assumes "fix_inv (p # g # ctx) t" and "color_of t = RED" and "frame_color p = RED"
  shows "case ifix_step p g t of
           Inl t' \<Rightarrow> fix_inv ctx t' \<and> color_of t' = RED
                    \<and> keys t' = keys (plug1 g (plug1 p t))
         | Inr (f, t') \<Rightarrow> fix_inv (f # ctx) t' \<and> frame_color f = BLACK
                    \<and> keys (plug1 f t') = keys (plug1 g (plug1 p t))"
  using assms
  apply (cases p; cases g; cases t; cases "sibling g")
  apply (auto simp add: fix_inv_def root_black_def split: if_splits)
  done

lemma ifix_inv:
  assumes "fix_inv ctx t" and "color_of t = RED"
  shows "fix_inv (fst (ifix ctx t)) (snd (ifix ctx t))
     \<and> (fst (ifix ctx t) \<noteq> [] \<longrightarrow> frame_color (hd (fst (ifix ctx t))) = BLACK)
     \<and> keys (plug (fst (ifix ctx t)) (snd (ifix ctx t))) = keys (plug ctx t)"
  using assms
proof (induction ctx t rule: ifix.induct)
  case (3 p g ctx t)
  show ?case
  proof (cases "frame_color p = RED")
    case False
    then show ?thesis using "3.prems" by simp
  next
    case True
    note st = ifix_step_inv[OF "3.prems" True]
    show ?thesis
    proof (cases "ifix_step p g t")
      case (Inl t')
      then have a: "fix_inv ctx t'" "color_of t' = RED" "keys t' = keys (plug1 g (plug1 p t))"
        using st by auto
      show ?thesis using "3.IH"[OF True Inl a(1,2)] True Inl keys_plug_cong[OF a(3), of ctx]
        by simp
    next
      case (Inr ft)
      obtain f t' where ft: "ft = (f, t')" by (cases ft)
      then have a: "fix_inv (f # ctx) t'" "frame_color f = BLACK"
        "keys (plug1 f t') = keys (plug1 g (plug1 p t))"
        using st Inr by auto
      show ?thesis using True Inr ft a keys_plug_cong[OF a(3), of ctx] by simp
    qed
  qed
next
  case (1 t)
  then show ?case by simp
next
  case (2 p t)
  then show ?case by (simp add: fix_inv_def root_black_def)
qed

section \<open>What a call leaves unchanged\<close>

named_theorems preserves_intros

lemma preservesD: "preserves R m \<Longrightarrow> m s = Some (r, s') \<Longrightarrow> R s s'"
  by (auto simp add: preserves_def)

lemma preserves_ret [preserves_intros]: "reflexive R \<Longrightarrow> preserves R (ret x)"
  by (auto simp add: preserves_def reflexive_def prog_simps)

lemma preserves_throw [preserves_intros]: "reflexive R \<Longrightarrow> preserves R (throw e)"
  by (auto simp add: preserves_def reflexive_def prog_simps)

lemma preserves_get [preserves_intros]: "reflexive R \<Longrightarrow> preserves R (get f p)"
  by (auto simp add: preserves_def reflexive_def get_def split: option.splits)

lemma preserves_get_root [preserves_intros]: "reflexive R \<Longrightarrow> preserves R get_root"
  by (auto simp add: preserves_def reflexive_def prog_simps)

lemma preserves_bind [preserves_intros]:
  "transitive R \<Longrightarrow> preserves R m \<Longrightarrow> (\<And>x. preserves R (f x)) \<Longrightarrow> preserves R (bind m f)"
  unfolding preserves_def transitive_def bind_def
  by (fastforce split: option.splits sum.splits prod.splits)

lemma preserves_seq [preserves_intros]:
  "transitive R \<Longrightarrow> preserves R m \<Longrightarrow> preserves R n \<Longrightarrow> preserves R (seq m n)"
  unfolding seq_def by (rule preserves_bind)

lemma preserves_if [preserves_intros]:
  "preserves R a \<Longrightarrow> preserves R b \<Longrightarrow> preserves R (if c then a else b)"
  by simp

lemma preserves_get2 [preserves_intros]:
  "reflexive R \<Longrightarrow> transitive R \<Longrightarrow> preserves R (get2 f g p)"
  unfolding get2_def by (intro preserves_intros)

lemma preserves_get3 [preserves_intros]:
  "reflexive R \<Longrightarrow> transitive R \<Longrightarrow> preserves R (get3 f g h p)"
  unfolding get3_def by (intro preserves_intros)

lemma preserves_is_red [preserves_intros]:
  "reflexive R \<Longrightarrow> transitive R \<Longrightarrow> preserves R (is_red p)"
  unfolding is_red_def by (intro preserves_intros)

lemma preserves_null_or_black [preserves_intros]:
  "reflexive R \<Longrightarrow> transitive R \<Longrightarrow> preserves R (null_or_black p)"
  unfolding null_or_black_def by (intro preserves_intros)

lemma preserves_both_null_or_black [preserves_intros]:
  "reflexive R \<Longrightarrow> transitive R \<Longrightarrow> preserves R (both_null_or_black p)"
  unfolding both_null_or_black_def by (intro preserves_intros)

subsection \<open>Allocation\<close>

lemma alloc_le_refl [preserves_intros]: "reflexive alloc_le"
  by (simp add: reflexive_def alloc_le_def)

lemma alloc_le_trans [preserves_intros]: "transitive alloc_le"
  unfolding transitive_def alloc_le_def
  by (metis (no_types, opaque_lifting) le_trans not_le order.strict_trans2)

lemma alloc_le_put [preserves_intros]: "preserves alloc_le (put p g)"
  by (auto simp add: preserves_def alloc_le_def put_def split: option.splits)

lemma alloc_le_set_root [preserves_intros]: "preserves alloc_le (set_root p)"
  by (auto simp add: preserves_def alloc_le_def prog_simps)

lemma alloc_le_count_rotation [preserves_intros]: "preserves alloc_le count_rotation"
  by (auto simp add: preserves_def alloc_le_def prog_simps)

lemma alloc_le_count_transplant [preserves_intros]: "preserves alloc_le count_transplant"
  by (auto simp add: preserves_def alloc_le_def prog_simps)

lemma alloc_le_delete_node [preserves_intros]: "preserves alloc_le (delete_node p)"
  by (auto simp add: preserves_def alloc_le_def delete_node_def split: option.splits)

lemma alloc_le_new_node [preserves_intros]: "preserves alloc_le (new_node k v)"
  by (auto simp add: preserves_def alloc_le_def prog_simps)

lemmas setter_defs = set_color_def set_parent_def set_left_def set_right_def

lemma alloc_le_leftRotate [preserves_intros]: "preserves alloc_le (leftRotate x)"
  unfolding leftRotate_def setter_defs by (intro preserves_intros)

lemma alloc_le_rightRotate [preserves_intros]: "preserves alloc_le (rightRotate x)"
  unfolding rightRotate_def setter_defs by (intro preserves_intros)

lemma alloc_le_transplant [preserves_intros]: "preserves alloc_le (transplant u v)"
  unfolding transplant_def setter_defs by (intro preserves_intros)

lemma alloc_le_insertFixup_body: "preserves alloc_le (insertFixup_body z)"
  unfolding insertFixup_body_def setter_defs by (intro preserves_intros)

lemma alloc_le_deleteFixup_body: "preserves alloc_le (deleteFixup_body x p)"
  unfolding deleteFixup_body_def deleteFixup_left_def deleteFixup_right_def
    deleteFixup_left_tail_def deleteFixup_right_tail_def setter_defs
  by (intro preserves_intros)

lemma alloc_ok_le: "alloc_ok s \<Longrightarrow> alloc_le s s' \<Longrightarrow> alloc_ok s'"
  by (fastforce simp add: alloc_ok_def alloc_le_def)

section \<open>Insertion\<close>

lemma keys_plug: "keys (plug ctx t) = ctx_lkeys ctx @ keys t @ ctx_rkeys ctx"
  by (induction ctx arbitrary: t rule: ctx_lkeys.induct) auto

lemma descend_plug:
  "descend k ctx t = Some ctx' \<Longrightarrow> plug ctx' Leaf = plug ctx t \<and> (path_ok k ctx \<longrightarrow> path_ok k ctx')"
  by (induction t arbitrary: ctx) (auto split: if_splits)

lemma path_ok_bounds:
  "path_ok k ctx \<Longrightarrow> sorted_wrt (<) (ctx_lkeys ctx @ ctx_rkeys ctx) \<Longrightarrow>
   (\<forall>x\<in>set (ctx_lkeys ctx). x < k) \<and> (\<forall>x\<in>set (ctx_rkeys ctx). k < x)"
proof (induction k ctx rule: path_ok.induct)
  case (1 k)
  then show ?case by simp
next
  case (2 k a k' v c r fs)
  have s: "sorted_wrt (<) (ctx_lkeys fs @ ctx_rkeys fs)"
    using "2.prems"(2) by (simp add: sorted_wrt_append)
  have r: "\<forall>x\<in>set (keys r). k' < x"
    using "2.prems"(2) by (simp add: sorted_wrt_append)
  have "\<forall>x\<in>set (keys r). k < x"
  proof
    fix x assume "x \<in> set (keys r)"
    with r have "k' < x" by simp
    with "2.prems"(1) show "k < x" by auto
  qed
  then show ?case using "2.IH"[OF _ s] "2.prems"(1) by auto
next
  case (3 k l a k' v c fs)
  have s: "sorted_wrt (<) (ctx_lkeys fs @ ctx_rkeys fs)"
    using "3.prems"(2) by (simp add: sorted_wrt_append)
  have l: "\<forall>x\<in>set (keys l). x < k'"
    using "3.prems"(2) by (simp add: sorted_wrt_append)
  have "\<forall>x\<in>set (keys l). x < k"
  proof
    fix x assume "x \<in> set (keys l)"
    with l have "x < k'" by simp
    with "3.prems"(1) show "x < k" by auto
  qed
  then show ?case using "3.IH"[OF _ s] "3.prems"(1) by auto
qed

lemma sorted_insert_path:
  assumes "path_ok k ctx" and "sorted_wrt (<) (keys (plug ctx Leaf))"
  shows "sorted_wrt (<) (keys (plug ctx (Node Leaf n k v c Leaf)))"
proof -
  have s: "sorted_wrt (<) (ctx_lkeys ctx @ ctx_rkeys ctx)"
    using assms(2) by (simp add: keys_plug)
  from path_ok_bounds[OF assms(1) s] s show ?thesis
    by (simp add: keys_plug sorted_wrt_append)
qed

lemma plug_not_Leaf: "t \<noteq> Leaf \<Longrightarrow> plug ctx t \<noteq> Leaf"
proof (induction ctx arbitrary: t)
  case Nil
  then show ?case by simp
next
  case (Cons f fs)
  then show ?case by (cases f) auto
qed

lemma link_focus:
  assumes "focus s ctx Leaf" and "path_ok k ctx" and "n \<notin> set (ctx_addrs ctx)"
    and "heap s n = Some \<lparr>key = k, val = v, color = RED, parent = None, left = None, right = None\<rparr>"
  shows "\<exists>s'. seq (set_parent (Some n) (ctx_parent ctx))
            (if ctx_parent ctx = None then set_root (Some n)
             else bind (get key (ctx_parent ctx)) (\<lambda>yk.
               if k < yk then set_left (ctx_parent ctx) (Some n)
               else set_right (ctx_parent ctx) (Some n))) s = Some (Inr (), s')
     \<and> focus s' ctx (Node Leaf n k v RED Leaf) \<and> rotations s' = rotations s"
  using assms
  apply (cases ctx rule: ctx_parent.cases)
  apply (simp_all add: focus_def prog_simps field_defs nat_eq_commute less_imp_not_less)
  done

lemma paint_root:
  assumes "tree_in s T" and "T \<noteq> Leaf"
  shows "\<exists>s'. bind get_root (\<lambda>r. set_color r BLACK) s = Some (Inr (), s')
     \<and> tree_in s' (paint BLACK T) \<and> rotations s' = rotations s"
  using assms by (cases T) (simp_all add: tree_in_def prog_simps field_defs)

lemma preserves_insertFixup_loop:
  assumes "reflexive R" and "transitive R" and "\<And>z. preserves R (insertFixup_body z)"
  shows "preserves R (insertFixup_loop z)"
proof -
  have "R s (snd y)" if run: "insertFixup_loop z s = Some y" for s y
  proof (rule insertFixup_loop.raw_induct[where P = "\<lambda>z s y. R s (snd y)", OF _ run])
    fix loop :: "nat option \<Rightarrow> (unit, 'a, 'b) prog" and z s y
    assume IH: "\<And>z s y. loop z s = Some y \<Longrightarrow> R s (snd y)"
      and eq: "bind (insertFixup_cond z)
            (\<lambda>b. if b then bind (insertFixup_body z) loop else ret ()) s = Some y"
    have l: "preserves R (loop z)" for z
      using IH by (auto simp add: preserves_def)
    have "preserves R (bind (insertFixup_cond z)
            (\<lambda>b. if b then bind (insertFixup_body z) loop else ret ()))"
      unfolding insertFixup_cond_def by (intro preserves_intros assms l)
    from preservesD[OF this, of s "fst y" "snd y"] eq show "R s (snd y)" by simp
  qed
  then show ?thesis by (auto simp add: preserves_def)
qed

lemma alloc_le_insertFixup: "preserves alloc_le (insertFixup z)"
  unfolding insertFixup_def setter_defs
  by (intro preserves_intros preserves_insertFixup_loop alloc_le_insertFixup_body)

lemma seq_assoc: "seq (seq a b) c = seq a (seq b c)"
  by (auto simp add: seq_def bind_def fun_eq_iff split: option.splits sum.splits prod.splits)

lemma ins_tree_props:
  assumes "rbt T" and "sorted_wrt (<) (keys T)" and "k \<notin> set (keys T)"
  shows "rbt (ins_tree n k v T) \<and> sorted_wrt (<) (keys (ins_tree n k v T))
     \<and> set (keys (ins_tree n k v T)) = insert k (set (keys T))"
proof -
  have "lookup T k = None" using assms(3) by (rule lookup_absent)
  then obtain ctx where d: "descend k [] T = Some ctx"
    using descend_None[of k "[]" T] by (cases "descend k [] T") auto
  let ?N = "Node Leaf n k v RED Leaf"
  from descend_plug[OF d] have T: "plug ctx Leaf = T" and p: "path_ok k ctx" by simp_all
  have inv: "fix_inv ctx ?N"
    using assms(1) unfolding T[symmetric] rbt_def fix_inv_def
    by (auto simp add: no_red_red_plug balanced_plug color_of_plug root_black_def split: if_splits)
  obtain ctx' t' where i: "ifix ctx ?N = (ctx', t')" by (cases "ifix ctx ?N")
  from ifix_inv[OF inv] i have a: "fix_inv ctx' t'" "ctx' \<noteq> [] \<longrightarrow> frame_color (hd ctx') = BLACK"
    "keys (plug ctx' t') = keys (plug ctx ?N)" by simp_all
  have e: "ins_tree n k v T = paint BLACK (plug ctx' t')"
    by (simp add: ins_tree_def d i)
  have "sorted_wrt (<) (keys (plug ctx ?N))"
    using sorted_insert_path[OF p] assms(2) T by simp
  moreover have "set (keys (plug ctx ?N)) = insert k (set (keys T))"
    unfolding T[symmetric] by (simp add: keys_plug)
  ultimately show ?thesis using fix_inv_rbt[OF a(1,2)] a(3) e by simp
qed

lemma ifix_step_not_Leaf:
  "t \<noteq> Leaf \<Longrightarrow> (case ifix_step p g t of Inl t' \<Rightarrow> t' \<noteq> Leaf | Inr (f, t') \<Rightarrow> t' \<noteq> Leaf)"
  by (cases p; cases g; cases t) auto

lemma ifix_not_Leaf: "t \<noteq> Leaf \<Longrightarrow> snd (ifix ctx t) \<noteq> Leaf"
proof (induction ctx t rule: ifix.induct)
  case (3 p g ctx t)
  then show ?case using ifix_step_not_Leaf[OF "3.prems", of p g]
    by (auto split: sum.splits prod.splits)
qed simp_all

lemma tree_in_addr_allocated: "tree_in s T \<Longrightarrow> a \<in> set (addrs T) \<Longrightarrow> heap s a \<noteq> None"
  using rep_addrs_allocated by (fastforce simp add: tree_in_def)

lemma insert_rbt_correct:
  assumes "tree_in s T" and "alloc_ok s" and "k \<notin> set (keys T)" and "rbt T"
  shows "\<exists>s'. insert_rbt k v s = Some (Inr (), s') \<and> tree_in s' (ins_tree (nxt s) k v T)
     \<and> alloc_ok s' \<and> rotations s' \<le> rotations s + 2"
proof -
  let ?n = "nxt s"
  let ?new = "\<lparr>key = k, val = v, color = RED, parent = None, left = None, right = None\<rparr>"
  let ?s0 = "s\<lparr>heap := (heap s)(?n \<mapsto> ?new), nxt := Suc ?n\<rparr>"
  let ?N = "Node Leaf ?n k v RED Leaf"
  have "lookup T k = None" using assms(3) by (rule lookup_absent)
  then obtain ctx where d: "descend k [] T = Some ctx"
    using descend_None[of k "[]" T] by (cases "descend k [] T") auto
  from descend_plug[OF d] have T: "plug ctx Leaf = T" and p: "path_ok k ctx" by simp_all
  have notin: "?n \<notin> set (addrs T)"
    using tree_in_addr_allocated[OF assms(1)] assms(2) by (fastforce simp add: alloc_ok_def)
  have t0: "tree_in ?s0 T" using assms(1) notin by (simp add: tree_in_def)
  then have f0: "focus ?s0 ctx Leaf" by (simp add: focus_tree_in T)
  have notin': "?n \<notin> set (ctx_addrs ctx)"
    using notin set_addrs_plug[of ctx Leaf] T by simp
  have loop: "insert_loop k None (rootp T) ?s0 = Some (Inr (ctx_parent ctx), ?s0)"
    using insert_loop_rep[of ?s0 "[]" T k] t0 d by (simp add: tree_in_def)
  let ?link = "seq (set_parent (Some ?n) (ctx_parent ctx))
            (if ctx_parent ctx = None then set_root (Some ?n)
             else bind (get key (ctx_parent ctx)) (\<lambda>yk.
               if k < yk then set_left (ctx_parent ctx) (Some ?n)
               else set_right (ctx_parent ctx) (Some ?n)))"
  obtain s1 where l: "?link ?s0 = Some (Inr (), s1)"
    and f1: "focus s1 ctx ?N" and r1: "rotations s1 = rotations ?s0"
    using link_focus[OF f0 p notin', of v] by auto
  have inv: "fix_inv ctx ?N"
    using assms(4) unfolding T[symmetric] rbt_def fix_inv_def
    by (auto simp add: no_red_red_plug balanced_plug color_of_plug root_black_def split: if_splits)
  then have rb: "root_black ctx" by (simp add: fix_inv_def)
  obtain s2 where l2: "insertFixup_loop (Some ?n) s1 = Some (Inr (), s2)"
    and f2: "focus s2 (fst (ifix ctx ?N)) (snd (ifix ctx ?N))"
    and r2: "rotations s2 \<le> rotations s1 + 2"
    using insertFixup_loop_focus[OF f1 _ rb] by auto
  obtain ctx' t' where i: "ifix ctx ?N = (ctx', t')" by (cases "ifix ctx ?N")
  have e: "ins_tree ?n k v T = paint BLACK (plug ctx' t')"
    by (simp add: ins_tree_def d i)
  have t2: "tree_in s2 (plug ctx' t')" using f2 i by (simp add: focus_tree_in)
  have nl: "plug ctx' t' \<noteq> Leaf"
    using ifix_not_Leaf[of ?N ctx] i by (simp add: plug_not_Leaf)
  obtain s3 where l3: "bind get_root (\<lambda>r. set_color r BLACK) s2 = Some (Inr (), s3)"
    and t3: "tree_in s3 (paint BLACK (plug ctx' t'))" and r3: "rotations s3 = rotations s2"
    using paint_root[OF t2 nl] by auto
  have fx: "insertFixup (Some ?n) s1 = Some (Inr (), s3)"
    using l2 l3 by (simp add: insertFixup_def prog_simps)
  have run: "insert_rbt k v s = Some (Inr (), s3)"
    using assms(1) loop l fx
    by (simp add: insert_rbt_def seq_assoc[symmetric] tree_in_def prog_simps)
  have "alloc_le s ?s0" by (simp add: alloc_le_def)
  moreover have "preserves alloc_le ?link"
    unfolding setter_defs by (intro preserves_intros)
  then have "alloc_le ?s0 s1" using l by (rule preservesD)
  moreover have "alloc_le s1 s3" by (rule preservesD[OF alloc_le_insertFixup fx])
  ultimately have "alloc_le s s3"
    using alloc_le_trans unfolding transitive_def by blast
  then show ?thesis using run t3 e r1 r2 r3 alloc_ok_le[OF assms(2)] by auto
qed

section \<open>Minimum, maximum, successor and predecessor\<close>

lemma rootp_None [simp]: "rootp t = None \<longleftrightarrow> t = Leaf"
  by (cases t) auto

lemma minimum_loop_rep:
  "rep (heap s) par t \<Longrightarrow> t \<noteq> Leaf \<Longrightarrow>
   minimum_loop (rootp t) s = Some (Inr (map_option fst (tree_min t)), s)"
proof (induction t arbitrary: par)
  case Leaf
  then show ?case by simp
next
  case (Node l a k v c r)
  show ?case
  proof (cases "l = Leaf")
    case True
    then show ?thesis using Node.prems
      by (subst minimum_loop.simps) (simp add: prog_simps)
  next
    case False
    then show ?thesis using Node.prems Node.IH(1)[of "Some a"]
      by (subst minimum_loop.simps) (simp add: prog_simps)
  qed
qed

lemma maximum_loop_rep:
  "rep (heap s) par t \<Longrightarrow> t \<noteq> Leaf \<Longrightarrow>
   maximum_loop (rootp t) s = Some (Inr (map_option fst (tree_max t)), s)"
proof (induction t arbitrary: par)
  case Leaf
  then show ?case by simp
next
  case (Node l a k v c r)
  show ?case
  proof (cases "r = Leaf")
    case True
    then show ?thesis using Node.prems
      by (subst maximum_loop.simps) (simp add: prog_simps)
  next
    case False
    then show ?thesis using Node.prems Node.IH(2)[of "Some a"]
      by (subst maximum_loop.simps) (simp add: prog_simps)
  qed
qed

lemma minimum_rep:
  "rep (heap s) par t \<Longrightarrow> minimum (rootp t) s = Some (Inr (map_option fst (tree_min t)), s)"
  using minimum_loop_rep[of s par t] by (cases t) (simp_all add: minimum_def prog_simps)

lemma maximum_rep:
  "rep (heap s) par t \<Longrightarrow> maximum (rootp t) s = Some (Inr (map_option fst (tree_max t)), s)"
  using maximum_loop_rep[of s par t] by (cases t) (simp_all add: maximum_def prog_simps)

lemma focus_up: "focus s (f # fs) t \<longleftrightarrow> focus s fs (plug1 f t)"
  by (simp add: focus_tree_in)

lemma successor_loop_focus:
  "focus s ctx t \<Longrightarrow> t \<noteq> Leaf \<Longrightarrow>
   successor_loop (rootp t) (ctx_parent ctx) s = Some (Inr (map_option fst (ctx_next ctx)), s)"
proof (induction ctx arbitrary: t rule: ctx_next.induct)
  case 1
  then show ?case by (subst successor_loop.simps) (simp add: prog_simps)
next
  case (2 a k v c r fs)
  then show ?case
    by (subst successor_loop.simps) (cases t; simp add: prog_simps focus_def)
next
  case (3 l a k v c fs)
  have f: "focus s fs (plug1 (RF l a k v c) t)" using "3.prems"(1) by (simp add: focus_up)
  have "successor_loop (Some a) (ctx_parent fs) s = Some (Inr (map_option fst (ctx_next fs)), s)"
    using "3.IH"[OF f] by simp
  then show ?case using "3.prems"
    by (subst successor_loop.simps) (cases t; simp add: prog_simps focus_def)
qed

lemma predecessor_loop_focus:
  "focus s ctx t \<Longrightarrow> t \<noteq> Leaf \<Longrightarrow>
   predecessor_loop (rootp t) (ctx_parent ctx) s = Some (Inr (map_option fst (ctx_prev ctx)), s)"
proof (induction ctx arbitrary: t rule: ctx_prev.induct)
  case 1
  then show ?case by (subst predecessor_loop.simps) (simp add: prog_simps)
next
  case (2 a k v c r fs)
  have f: "focus s fs (plug1 (LF a k v c r) t)" using "2.prems"(1) by (simp add: focus_up)
  have "predecessor_loop (Some a) (ctx_parent fs) s = Some (Inr (map_option fst (ctx_prev fs)), s)"
    using "2.IH"[OF f] by simp
  then show ?case using "2.prems"
    by (subst predecessor_loop.simps) (cases t; simp add: prog_simps focus_def)
next
  case (3 l a k v c fs)
  then show ?case
    by (subst predecessor_loop.simps) (cases t; simp add: prog_simps focus_def)
qed

lemma successor_focus:
  assumes "focus s ctx (Node l a k v c r)"
  shows "successor (Some a) s = Some (Inr (map_option fst (succ_of ctx r)), s)"
proof (cases "r = Leaf")
  case True
  then show ?thesis
    using assms successor_loop_focus[OF assms]
    by (simp add: successor_def succ_of_def prog_simps focus_def)
next
  case False
  have r: "rep (heap s) (Some a) r" using assms by (simp add: focus_def)
  have "tree_min r \<noteq> None" using False by (induction r) auto
  then show ?thesis
    using assms False minimum_rep[OF r]
    by (auto simp add: successor_def succ_of_def prog_simps focus_def)
qed

lemma predecessor_focus:
  assumes "focus s ctx (Node l a k v c r)"
  shows "predecessor (Some a) s = Some (Inr (map_option fst (pred_of ctx l)), s)"
proof (cases "l = Leaf")
  case True
  then show ?thesis
    using assms predecessor_loop_focus[OF assms]
    by (simp add: predecessor_def pred_of_def prog_simps focus_def)
next
  case False
  have r: "rep (heap s) (Some a) l" using assms by (simp add: focus_def)
  have "tree_max l \<noteq> None" using False by (induction l) auto
  then show ?thesis
    using assms False maximum_rep[OF r]
    by (auto simp add: predecessor_def pred_of_def prog_simps focus_def)
qed

lemma plug_append: "plug (xs @ ys) t = plug ys (plug xs t)"
  by (induction xs arbitrary: t) auto

lemma addr_focus:
  "a \<in> set (addrs T) \<Longrightarrow> \<exists>ctx l k v c r. T = plug ctx (Node l a k v c r)"
proof (induction T)
  case Leaf
  then show ?case by simp
next
  case (Node l' a' k' v' c' r')
  consider "a = a'" | "a \<in> set (addrs l')" | "a \<in> set (addrs r')"
    using Node.prems by auto
  then show ?case
  proof cases
    case 1
    then have "Node l' a' k' v' c' r' = plug [] (Node l' a k' v' c' r')" by simp
    then show ?thesis by blast
  next
    case 2
    then obtain ctx l k v c r where "l' = plug ctx (Node l a k v c r)"
      using Node.IH(1) by blast
    then have "Node l' a' k' v' c' r' = plug (ctx @ [LF a' k' v' c' r']) (Node l a k v c r)"
      by (simp add: plug_append)
    then show ?thesis by blast
  next
    case 3
    then obtain ctx l k v c r where "r' = plug ctx (Node l a k v c r)"
      using Node.IH(2) by blast
    then have "Node l' a' k' v' c' r' = plug (ctx @ [RF l' a' k' v' c']) (Node l a k v c r)"
      by (simp add: plug_append)
    then show ?thesis by blast
  qed
qed

lemma tree_min_None [simp]: "tree_min t = None \<longleftrightarrow> t = Leaf"
  by (induction t) auto

lemma tree_max_None [simp]: "tree_max t = None \<longleftrightarrow> t = Leaf"
  by (induction t) auto

lemma tree_min_keys:
  "tree_min t = Some (b, kb) \<Longrightarrow> b \<in> set (addrs t) \<and> (\<exists>rest. keys t = kb # rest)"
  by (induction t) (auto split: if_splits)

lemma tree_max_keys:
  "tree_max t = Some (b, kb) \<Longrightarrow> b \<in> set (addrs t) \<and> (\<exists>rest. keys t = rest @ [kb])"
proof (induction t)
  case Leaf
  then show ?case by simp
next
  case (Node l a k v c r)
  show ?case
  proof (cases "r = Leaf")
    case True
    then show ?thesis using Node.prems by auto
  next
    case False
    then obtain rest where "b \<in> set (addrs r)" "keys r = rest @ [kb]"
      using Node by auto
    then have "keys (Node l a k v c r) = (keys l @ k # rest) @ [kb]" by simp
    then show ?thesis using \<open>b \<in> set (addrs r)\<close> by auto
  qed
qed

lemma ctx_next_keys:
  "ctx_next ctx = Some (b, kb) \<Longrightarrow> b \<in> set (ctx_addrs ctx) \<and> (\<exists>rest. ctx_rkeys ctx = kb # rest)"
  by (induction ctx rule: ctx_next.induct) auto

lemma ctx_prev_keys:
  "ctx_prev ctx = Some (b, kb) \<Longrightarrow> b \<in> set (ctx_addrs ctx) \<and> (\<exists>rest. ctx_lkeys ctx = rest @ [kb])"
proof (induction ctx rule: ctx_prev.induct)
  case 1
  then show ?case by simp
next
  case (2 a k v c r fs)
  then show ?case by auto
next
  case (3 l a k v c fs)
  then have "ctx_lkeys (RF l a k v c # fs) = (ctx_lkeys fs @ keys l) @ [kb]" by simp
  then show ?case using 3 by auto
qed

lemma ctx_next_None: "ctx_next ctx = None \<Longrightarrow> ctx_rkeys ctx = []"
  by (induction ctx rule: ctx_next.induct) auto

lemma ctx_prev_None: "ctx_prev ctx = None \<Longrightarrow> ctx_lkeys ctx = []"
  by (induction ctx rule: ctx_prev.induct) auto

lemma tree_min_heap:
  "rep h par t \<Longrightarrow> tree_min t = Some (b, kb) \<Longrightarrow> \<exists>m. h b = Some m \<and> key m = kb"
  by (induction t arbitrary: par) (auto split: if_splits)

lemma tree_max_heap:
  "rep h par t \<Longrightarrow> tree_max t = Some (b, kb) \<Longrightarrow> \<exists>m. h b = Some m \<and> key m = kb"
  by (induction t arbitrary: par) (auto split: if_splits)

lemma ctx_next_heap:
  "rep_ctx h ctx p \<Longrightarrow> ctx_next ctx = Some (b, kb) \<Longrightarrow> \<exists>m. h b = Some m \<and> key m = kb"
  by (induction h ctx p rule: rep_ctx.induct) auto

lemma ctx_prev_heap:
  "rep_ctx h ctx p \<Longrightarrow> ctx_prev ctx = Some (b, kb) \<Longrightarrow> \<exists>m. h b = Some m \<and> key m = kb"
  by (induction h ctx p rule: rep_ctx.induct) auto

lemma sorted_greatest:
  fixes k :: "'k::linorder"
  assumes "sorted_wrt (<) (xs @ [k])"
  shows "\<forall>x\<in>set (xs @ [k]). x \<le> k"
  using assms by (auto simp add: sorted_wrt_append intro: less_imp_le)

lemma sorted_least:
  fixes k :: "'k::linorder"
  assumes "sorted_wrt (<) (k # ys)"
  shows "\<forall>x\<in>set (k # ys). k \<le> x"
  using assms by (auto intro: less_imp_le)

lemma sorted_next:
  fixes k :: "'k::linorder"
  assumes "sorted_wrt (<) (xs @ k # kb # ys)"
  shows "k < kb \<and> (\<forall>x\<in>set (xs @ k # kb # ys). k < x \<longrightarrow> kb \<le> x)"
proof -
  have a: "\<forall>x\<in>set xs. x < k" "k < kb" "\<forall>y\<in>set ys. kb < y"
    using assms by (auto simp add: sorted_wrt_append)
  show ?thesis
  proof (intro conjI ballI impI)
    show "k < kb" by (rule a(2))
  next
    fix x assume x: "x \<in> set (xs @ k # kb # ys)" "k < x"
    then consider "x \<in> set xs" | "x = k" | "x = kb" | "x \<in> set ys" by auto
    then show "kb \<le> x"
    proof cases
      case 1
      then have "x < k" using a(1) by simp
      then show ?thesis using x(2) by simp
    next
      case 2
      then show ?thesis using x(2) by simp
    next
      case 3
      then show ?thesis by simp
    next
      case 4
      then have "kb < x" using a(3) by simp
      then show ?thesis by simp
    qed
  qed
qed

lemma sorted_prev:
  fixes k :: "'k::linorder"
  assumes "sorted_wrt (<) (xs @ kb # k # ys)"
  shows "kb < k \<and> (\<forall>x\<in>set (xs @ kb # k # ys). x < k \<longrightarrow> x \<le> kb)"
proof -
  have a: "\<forall>x\<in>set xs. x < kb" "kb < k" "\<forall>y\<in>set ys. k < y"
    using assms by (auto simp add: sorted_wrt_append)
  show ?thesis
  proof (intro conjI ballI impI)
    show "kb < k" by (rule a(2))
  next
    fix x assume x: "x \<in> set (xs @ kb # k # ys)" "x < k"
    then consider "x \<in> set xs" | "x = kb" | "x = k" | "x \<in> set ys" by auto
    then show "x \<le> kb"
    proof cases
      case 1
      then have "x < kb" using a(1) by simp
      then show ?thesis by simp
    next
      case 2
      then show ?thesis by simp
    next
      case 3
      then show ?thesis using x(2) by simp
    next
      case 4
      then have "k < x" using a(3) by simp
      then show ?thesis using x(2) by simp
    qed
  qed
qed

lemma succ_of_cases:
  "(succ_of ctx r = None \<and> keys r @ ctx_rkeys ctx = [])
   \<or> (\<exists>b kb rest. succ_of ctx r = Some (b, kb) \<and> keys r @ ctx_rkeys ctx = kb # rest
         \<and> b \<in> set (addrs r) \<union> set (ctx_addrs ctx)
         \<and> (\<forall>h p. rep h p r \<and> rep_ctx h ctx (Some a) \<longrightarrow> (\<exists>m. h b = Some m \<and> key m = kb)))"
proof (cases "tree_min r")
  case None
  then have r: "r = Leaf" by simp
  show ?thesis
  proof (cases "ctx_next ctx")
    case n: None
    then show ?thesis using ctx_next_None[OF n] r by (simp add: succ_of_def)
  next
    case (Some bk)
    obtain b kb where bk: "bk = (b, kb)" by (cases bk)
    show ?thesis
      using ctx_next_keys[OF Some[unfolded bk]] ctx_next_heap[OF _ Some[unfolded bk]] r Some bk
      by (auto simp add: succ_of_def)
  qed
next
  case (Some bk)
  obtain b kb where bk: "bk = (b, kb)" by (cases bk)
  show ?thesis
    using tree_min_keys[OF Some[unfolded bk]] tree_min_heap[OF _ Some[unfolded bk]] Some bk
    by (auto simp add: succ_of_def)
qed

lemma pred_of_cases:
  "(pred_of ctx l = None \<and> ctx_lkeys ctx @ keys l = [])
   \<or> (\<exists>b kb rest. pred_of ctx l = Some (b, kb) \<and> ctx_lkeys ctx @ keys l = rest @ [kb]
         \<and> b \<in> set (addrs l) \<union> set (ctx_addrs ctx)
         \<and> (\<forall>h p. rep h p l \<and> rep_ctx h ctx (Some a) \<longrightarrow> (\<exists>m. h b = Some m \<and> key m = kb)))"
proof (cases "tree_max l")
  case None
  then have r: "l = Leaf" by simp
  show ?thesis
  proof (cases "ctx_prev ctx")
    case n: None
    then show ?thesis using ctx_prev_None[OF n] r by (simp add: pred_of_def)
  next
    case (Some bk)
    obtain b kb where bk: "bk = (b, kb)" by (cases bk)
    show ?thesis
      using ctx_prev_keys[OF Some[unfolded bk]] ctx_prev_heap[OF _ Some[unfolded bk]] r Some bk
      by (auto simp add: pred_of_def)
  qed
next
  case (Some bk)
  obtain b kb where bk: "bk = (b, kb)" by (cases bk)
  obtain rest where "b \<in> set (addrs l)" "keys l = rest @ [kb]"
    using tree_max_keys[OF Some[unfolded bk]] by auto
  then have "ctx_lkeys ctx @ keys l = (ctx_lkeys ctx @ rest) @ [kb]" by simp
  then show ?thesis
    using \<open>b \<in> set (addrs l)\<close> tree_max_heap[OF _ Some[unfolded bk]] Some bk
    by (auto simp add: pred_of_def)
qed

lemma succ_of_least_above:
  assumes "focus s ctx (Node l a k v c r)"
    and "sorted_wrt (<) (keys (plug ctx (Node l a k v c r)))"
  shows "least_above s (plug ctx (Node l a k v c r)) k (map_option fst (succ_of ctx r))"
proof -
  let ?T = "plug ctx (Node l a k v c r)"
  have ks: "keys ?T = (ctx_lkeys ctx @ keys l) @ k # (keys r @ ctx_rkeys ctx)"
    by (simp add: keys_plug)
  have as: "set (addrs ?T) = set (addrs l) \<union> {a} \<union> set (addrs r) \<union> set (ctx_addrs ctx)"
    by (auto simp add: set_addrs_plug)
  have hr: "rep (heap s) (Some a) r" and hc: "rep_ctx (heap s) ctx (Some a)"
    using assms(1) by (simp_all add: focus_def)
  from succ_of_cases[of ctx r a] show ?thesis
  proof (elim disjE conjE exE)
    assume n: "succ_of ctx r = None" "keys r @ ctx_rkeys ctx = []"
    then have "keys ?T = (ctx_lkeys ctx @ keys l) @ [k]" using ks by simp
    with sorted_greatest[of "ctx_lkeys ctx @ keys l" k] assms(2)
    show ?thesis by (simp add: least_above_def n(1))
  next
    fix b kb rest
    assume n: "succ_of ctx r = Some (b, kb)" "keys r @ ctx_rkeys ctx = kb # rest"
      "b \<in> set (addrs r) \<union> set (ctx_addrs ctx)"
      "\<forall>h p. rep h p r \<and> rep_ctx h ctx (Some a) \<longrightarrow> (\<exists>m. h b = Some m \<and> key m = kb)"
    then have k2: "keys ?T = (ctx_lkeys ctx @ keys l) @ k # kb # rest" using ks by simp
    obtain m where m: "heap s b = Some m" "key m = kb" using n(4) hr hc by blast
    from sorted_next[of "ctx_lkeys ctx @ keys l" k kb rest] assms(2) k2
    have "k < kb" "\<forall>x\<in>set (keys ?T). k < x \<longrightarrow> kb \<le> x" by simp_all
    moreover have "kb \<in> set (keys ?T)" using k2 by simp
    moreover have "b \<in> set (addrs ?T)" using n(3) as by auto
    ultimately show ?thesis using m by (simp add: least_above_def n(1))
  qed
qed

lemma pred_of_greatest_below:
  assumes "focus s ctx (Node l a k v c r)"
    and "sorted_wrt (<) (keys (plug ctx (Node l a k v c r)))"
  shows "greatest_below s (plug ctx (Node l a k v c r)) k (map_option fst (pred_of ctx l))"
proof -
  let ?T = "plug ctx (Node l a k v c r)"
  have ks: "keys ?T = (ctx_lkeys ctx @ keys l) @ k # (keys r @ ctx_rkeys ctx)"
    by (simp add: keys_plug)
  have as: "set (addrs ?T) = set (addrs l) \<union> {a} \<union> set (addrs r) \<union> set (ctx_addrs ctx)"
    by (auto simp add: set_addrs_plug)
  have hr: "rep (heap s) (Some a) l" and hc: "rep_ctx (heap s) ctx (Some a)"
    using assms(1) by (simp_all add: focus_def)
  from pred_of_cases[of ctx l a] show ?thesis
  proof (elim disjE conjE exE)
    assume n: "pred_of ctx l = None" "ctx_lkeys ctx @ keys l = []"
    then have "keys ?T = k # (keys r @ ctx_rkeys ctx)" using ks by simp
    with sorted_least[of k "keys r @ ctx_rkeys ctx"] assms(2)
    show ?thesis by (simp add: greatest_below_def n(1))
  next
    fix b kb rest
    assume n: "pred_of ctx l = Some (b, kb)" "ctx_lkeys ctx @ keys l = rest @ [kb]"
      "b \<in> set (addrs l) \<union> set (ctx_addrs ctx)"
      "\<forall>h p. rep h p l \<and> rep_ctx h ctx (Some a) \<longrightarrow> (\<exists>m. h b = Some m \<and> key m = kb)"
    then have k2: "keys ?T = rest @ kb # k # (keys r @ ctx_rkeys ctx)" using ks by simp
    obtain m where m: "heap s b = Some m" "key m = kb" using n(4) hr hc by blast
    from sorted_prev[of rest kb k "keys r @ ctx_rkeys ctx"] assms(2) k2
    have "kb < k" "\<forall>x\<in>set (keys ?T). x < k \<longrightarrow> x \<le> kb" by simp_all
    moreover have "kb \<in> set (keys ?T)" using k2 by simp
    moreover have "b \<in> set (addrs ?T)" using n(3) as by auto
    ultimately show ?thesis using m by (simp add: greatest_below_def n(1))
  qed
qed

section \<open>Rotations and transplant write links only\<close>

lemma links_only_refl: "reflexive links_only"
  by (simp add: reflexive_def links_only_def)

lemma links_only_trans: "transitive links_only"
  by (simp add: transitive_def links_only_def)

lemma links_only_set_parent: "preserves links_only (set_parent p q)"
  by (auto simp add: preserves_def links_only_def set_parent_def put_def split: option.splits)

lemma links_only_set_left: "preserves links_only (set_left p q)"
  by (auto simp add: preserves_def links_only_def set_left_def put_def split: option.splits)

lemma links_only_set_right: "preserves links_only (set_right p q)"
  by (auto simp add: preserves_def links_only_def set_right_def put_def split: option.splits)

lemma links_only_set_root: "preserves links_only (set_root p)"
  by (auto simp add: preserves_def links_only_def prog_simps)

lemma links_only_count_rotation: "preserves links_only count_rotation"
  by (auto simp add: preserves_def links_only_def prog_simps)

lemma links_only_count_transplant: "preserves links_only count_transplant"
  by (auto simp add: preserves_def links_only_def prog_simps)

lemmas links_only_intros = links_only_refl links_only_trans links_only_set_parent
  links_only_set_left links_only_set_right links_only_set_root links_only_count_rotation
  links_only_count_transplant

lemma links_only_leftRotate: "preserves links_only (leftRotate x)"
  unfolding leftRotate_def by (intro preserves_intros links_only_intros)

lemma links_only_rightRotate: "preserves links_only (rightRotate x)"
  unfolding rightRotate_def by (intro preserves_intros links_only_intros)

lemma links_only_transplant: "preserves links_only (transplant u v)"
  unfolding transplant_def by (intro preserves_intros links_only_intros)

lemma addrs_plug_cong: "addrs t = addrs t' \<Longrightarrow> addrs (plug ctx t) = addrs (plug ctx t')"
proof (induction ctx arbitrary: t t')
  case Nil
  then show ?case by simp
next
  case (Cons f fs)
  then show ?case by (cases f) auto
qed

lemma leftRotate_tree:
  assumes "tree_in s T" and "x \<in> set (addrs T)"
  shows "\<exists>s' T'. leftRotate (Some x) s = Some (Inr (), s') \<and> tree_in s' T'
     \<and> keys T' = keys T \<and> addrs T' = addrs T"
proof -
  obtain ctx l k v c r where T: "T = plug ctx (Node l x k v c r)"
    using addr_focus[OF assms(2)] by blast
  have f: "focus s ctx (Node l x k v c r)" using assms(1) by (simp add: focus_tree_in T)
  show ?thesis
  proof (cases r)
    case Leaf
    have "leftRotate (Some x) s = Some (Inr (), s\<lparr>rotations := Suc (rotations s)\<rparr>)"
      using f Leaf by (simp add: leftRotate_def prog_simps focus_def)
    moreover have "tree_in (s\<lparr>rotations := Suc (rotations s)\<rparr>) T"
      using assms(1) by (simp add: tree_in_def)
    ultimately show ?thesis by blast
  next
    case (Node b y ky vy cy c')
    let ?t' = "Node (Node l x k v c b) y ky vy cy c'"
    obtain s' where "leftRotate (Some x) s = Some (Inr (), s')" "focus s' ctx ?t'"
      using leftRotate_focus[of s ctx l x k v c b y ky vy cy c'] f Node by auto
    moreover have "keys (plug ctx ?t') = keys T" "addrs (plug ctx ?t') = addrs T"
      unfolding T Node by (rule keys_plug_cong addrs_plug_cong; simp)+
    ultimately show ?thesis unfolding focus_tree_in by blast
  qed
qed

lemma rightRotate_tree:
  assumes "tree_in s T" and "y \<in> set (addrs T)"
  shows "\<exists>s' T'. rightRotate (Some y) s = Some (Inr (), s') \<and> tree_in s' T'
     \<and> keys T' = keys T \<and> addrs T' = addrs T"
proof -
  obtain ctx l k v c r where T: "T = plug ctx (Node l y k v c r)"
    using addr_focus[OF assms(2)] by blast
  have f: "focus s ctx (Node l y k v c r)" using assms(1) by (simp add: focus_tree_in T)
  show ?thesis
  proof (cases l)
    case Leaf
    have "rightRotate (Some y) s = Some (Inr (), s\<lparr>rotations := Suc (rotations s)\<rparr>)"
      using f Leaf by (simp add: rightRotate_def prog_simps focus_def)
    moreover have "tree_in (s\<lparr>rotations := Suc (rotations s)\<rparr>) T"
      using assms(1) by (simp add: tree_in_def)
    ultimately show ?thesis by blast
  next
    case (Node a x kx vx cx b)
    let ?t' = "Node a x kx vx cx (Node b y k v c r)"
    obtain s' where "rightRotate (Some y) s = Some (Inr (), s')" "focus s' ctx ?t'"
      using rightRotate_focus[of s ctx a x kx vx cx b y k v c r] f Node by auto
    moreover have "keys (plug ctx ?t') = keys T" "addrs (plug ctx ?t') = addrs T"
      unfolding T Node by (rule keys_plug_cong addrs_plug_cong; simp)+
    ultimately show ?thesis unfolding focus_tree_in by blast
  qed
qed

section \<open>Refinement of \<open>deleteFixup\<close>\<close>

lemmas heap_simps = focus_def prog_simps field_defs nat_eq_commute Int_Un_distrib Int_Un_distrib2
  Int_commute

lemma ctx_top_Some [simp]: "ctx_top fs (Some a) \<noteq> None" "None \<noteq> ctx_top fs (Some a)"
proof -
  show "ctx_top fs (Some a) \<noteq> None"
  proof (induction fs arbitrary: a)
    case Nil
    then show ?case by simp
  next
    case (Cons f fs)
    then show ?case by (cases f) auto
  qed
  then show "None \<noteq> ctx_top fs (Some a)" by (simp add: eq_commute)
qed

lemma deleteFixup_cond_focus:
  assumes "focus s ctx xt"
  shows "deleteFixup_cond (rootp xt) s = Some (Inr (ctx \<noteq> [] \<and> color_of xt = BLACK), s)"
  using assms
  apply (cases ctx rule: ctx_parent.cases; cases xt)
  apply (simp_all add: deleteFixup_cond_def heap_simps)
  done

lemma case1_L:
  assumes "focus s (LF pa pk pv pc (Node wl wa wk wv RED wr) # rest) xt"
  shows "\<exists>s'. seq (set_color (Some wa) BLACK)
            (seq (set_color (Some pa) RED)
            (seq (leftRotate (Some pa))
                 (get right (Some pa)))) s = Some (Inr (rootp wl), s')
     \<and> focus s' (LF pa pk pv RED wl # LF wa wk wv BLACK wr # rest) xt"
  using assms
  apply (cases rest rule: ctx_parent.cases; cases wl)
  apply (simp_all add: leftRotate_def heap_simps)
  done

lemma tail_L_leaf:
  assumes "focus s (LF pa pk pv pc Leaf # ctx) xt"
  shows "deleteFixup_left_tail (Some pa) None s = Some (Inr (False, Some pa, ctx_parent ctx), s)"
  using assms
  by (simp add: deleteFixup_left_tail_def heap_simps)

lemma tail_L_both:
  assumes "focus s (LF pa pk pv pc (Node sl sa sk sv sc sr) # ctx) xt"
    and "color_of sl = BLACK" and "color_of sr = BLACK"
  shows "\<exists>s'. deleteFixup_left_tail (Some pa) (Some sa) s = Some (Inr (False, Some pa, ctx_parent ctx), s')
     \<and> focus s' ctx (Node xt pa pk pv pc (Node sl sa sk sv RED sr))"
  using assms
  apply (cases sl; cases sr)
  apply (simp_all add: deleteFixup_left_tail_def heap_simps)
  done

lemma tail_L_far:
  assumes "focus s (LF pa pk pv pc (Node sl sa sk sv sc (Node srl sra srk srv RED srr)) # ctx) xt"
  shows "\<exists>s'. deleteFixup_left_tail (Some pa) (Some sa) s = Some (Inr (True, root s', Some pa), s')
     \<and> focus s' ctx (Node (Node xt pa pk pv BLACK sl) sa sk sv pc (Node srl sra srk srv BLACK srr))"
  using assms
  apply (cases ctx rule: ctx_parent.cases; cases sl)
  apply (simp_all add: deleteFixup_left_tail_def leftRotate_def heap_simps)
  done

lemma tail_L_near:
  assumes "focus s (LF pa pk pv pc (Node (Node sll sla slk slv RED slr) sa sk sv sc sr) # ctx) xt"
    and "color_of sr = BLACK"
  shows "\<exists>s'. deleteFixup_left_tail (Some pa) (Some sa) s = Some (Inr (True, root s', Some pa), s')
     \<and> focus s' ctx (Node (Node xt pa pk pv BLACK sll) sla slk slv pc (Node slr sa sk sv BLACK sr))"
  using assms
  apply (cases ctx rule: ctx_parent.cases; cases sr; cases sll; cases slr)
  apply (simp_all add: deleteFixup_left_tail_def leftRotate_def rightRotate_def heap_simps)
  done

lemma case1_R:
  assumes "focus s (RF (Node wl wa wk wv RED wr) pa pk pv pc # rest) xt"
  shows "\<exists>s'. seq (set_color (Some wa) BLACK)
            (seq (set_color (Some pa) RED)
            (seq (rightRotate (Some pa))
                 (get left (Some pa)))) s = Some (Inr (rootp wr), s')
     \<and> focus s' (RF wr pa pk pv RED # RF wl wa wk wv BLACK # rest) xt"
  using assms
  apply (cases rest rule: ctx_parent.cases; cases wr)
  apply (simp_all add: rightRotate_def heap_simps)
  done

lemma tail_R_leaf:
  assumes "focus s (RF Leaf pa pk pv pc # ctx) xt"
  shows "deleteFixup_right_tail (Some pa) None s = Some (Inr (False, Some pa, ctx_parent ctx), s)"
  using assms
  by (simp add: deleteFixup_right_tail_def heap_simps)

lemma tail_R_both:
  assumes "focus s (RF (Node sl sa sk sv sc sr) pa pk pv pc # ctx) xt"
    and "color_of sl = BLACK" and "color_of sr = BLACK"
  shows "\<exists>s'. deleteFixup_right_tail (Some pa) (Some sa) s = Some (Inr (False, Some pa, ctx_parent ctx), s')
     \<and> focus s' ctx (Node (Node sl sa sk sv RED sr) pa pk pv pc xt)"
  using assms
  apply (cases sl; cases sr)
  apply (simp_all add: deleteFixup_right_tail_def heap_simps)
  done

lemma tail_R_far:
  assumes "focus s (RF (Node (Node sll sla slk slv RED slr) sa sk sv sc sr) pa pk pv pc # ctx) xt"
  shows "\<exists>s'. deleteFixup_right_tail (Some pa) (Some sa) s = Some (Inr (True, root s', Some pa), s')
     \<and> focus s' ctx (Node (Node sll sla slk slv BLACK slr) sa sk sv pc (Node sr pa pk pv BLACK xt))"
  using assms
  apply (cases ctx rule: ctx_parent.cases; cases sr)
  apply (simp_all add: deleteFixup_right_tail_def rightRotate_def heap_simps)
  done

lemma tail_R_near:
  assumes "focus s (RF (Node sl sa sk sv sc (Node srl sra srk srv RED srr)) pa pk pv pc # ctx) xt"
    and "color_of sl = BLACK"
  shows "\<exists>s'. deleteFixup_right_tail (Some pa) (Some sa) s = Some (Inr (True, root s', Some pa), s')
     \<and> focus s' ctx (Node (Node sl sa sk sv BLACK srl) sra srk srv pc (Node srr pa pk pv BLACK xt))"
  using assms
  apply (cases ctx rule: ctx_parent.cases; cases sl; cases srl; cases srr)
  apply (simp_all add: deleteFixup_right_tail_def leftRotate_def rightRotate_def heap_simps)
  done

lemma deleteFixup_left_tail_focus:
  assumes "focus s (LF pa pk pv pc sb # ctx) xt"
  shows "\<exists>s' r. deleteFixup_left_tail (Some pa) (rootp sb) s = Some (Inr r, s')
     \<and> dstep_ok s' ctx (d_rest (LF pa pk pv pc sb) xt) r"
proof (cases sb)
  case Leaf
  then show ?thesis using tail_L_leaf[of s pa pk pv pc ctx xt] assms
    by (simp add: dstep_ok_def focus_up)
next
  case (Node sl sa sk sv sc sr)
  show ?thesis
  proof (cases "color_of sl = BLACK \<and> color_of sr = BLACK")
    case True
    then show ?thesis using tail_L_both[of s pa pk pv pc sl sa sk sv sc sr ctx xt] assms Node
      by (auto simp add: dstep_ok_def)
  next
    case nb: False
    show ?thesis
    proof (cases "color_of sr = BLACK")
      case False
      then obtain srl sra srk srv srr where sr: "sr = Node srl sra srk srv RED srr"
        by (cases sr) auto
      show ?thesis using tail_L_far[of s pa pk pv pc sl sa sk sv sc srl sra srk srv srr ctx xt] assms Node
        by (auto simp add: dstep_ok_def sr)
    next
      case True
      then have "color_of sl = RED" using nb by simp
      then obtain sll sla slk slv slr where sl: "sl = Node sll sla slk slv RED slr"
        by (cases sl) auto
      show ?thesis using tail_L_near[of s pa pk pv pc sll sla slk slv slr sa sk sv sc sr ctx xt] assms Node True
        by (cases sr) (auto simp add: dstep_ok_def sl)
    qed
  qed
qed

lemma deleteFixup_right_tail_focus:
  assumes "focus s (RF sb pa pk pv pc # ctx) xt"
  shows "\<exists>s' r. deleteFixup_right_tail (Some pa) (rootp sb) s = Some (Inr r, s')
     \<and> dstep_ok s' ctx (d_rest (RF sb pa pk pv pc) xt) r"
proof (cases sb)
  case Leaf
  then show ?thesis using tail_R_leaf[of s pa pk pv pc ctx xt] assms
    by (simp add: dstep_ok_def focus_up)
next
  case (Node sl sa sk sv sc sr)
  show ?thesis
  proof (cases "color_of sl = BLACK \<and> color_of sr = BLACK")
    case True
    then show ?thesis using tail_R_both[of s sl sa sk sv sc sr pa pk pv pc ctx xt] assms Node
      by (auto simp add: dstep_ok_def)
  next
    case nb: False
    show ?thesis
    proof (cases "color_of sl = BLACK")
      case False
      then obtain sll sla slk slv slr where sl: "sl = Node sll sla slk slv RED slr"
        by (cases sl) auto
      show ?thesis using tail_R_far[of s sll sla slk slv slr sa sk sv sc sr pa pk pv pc ctx xt] assms Node
        by (auto simp add: dstep_ok_def sl)
    next
      case True
      then have "color_of sr = RED" using nb by simp
      then obtain srl sra srk srv srr where sr: "sr = Node srl sra srk srv RED srr"
        by (cases sr) auto
      show ?thesis using tail_R_near[of s sl sa sk sv sc srl sra srk srv srr pa pk pv pc ctx xt] assms Node True
        by (cases sl) (auto simp add: dstep_ok_def sr)
    qed
  qed
qed

lemma deleteFixup_left_focus:
  assumes "focus s (LF pa pk pv pc w # rest) xt"
  shows "\<exists>s' r. deleteFixup_left (Some pa) s = Some (Inr r, s')
     \<and> dstep_ok s' (fst (d_case1 (LF pa pk pv pc w)) @ rest)
          (d_rest (snd (d_case1 (LF pa pk pv pc w))) xt) r"
proof (cases w)
  case Leaf
  have g: "get right (Some pa) s = Some (Inr None, s)" "is_red None s = Some (Inr False, s)"
    using assms Leaf by (simp_all add: heap_simps)
  show ?thesis
    using deleteFixup_left_tail_focus[OF assms] g Leaf
    by (simp add: deleteFixup_left_def prog_simps)
next
  case (Node wl wa wk wv wc wr)
  have g: "get right (Some pa) s = Some (Inr (Some wa), s)"
    "is_red (Some wa) s = Some (Inr (wc = RED), s)"
    using assms Node by (simp_all add: heap_simps)
  show ?thesis
  proof (cases wc)
    case RED
    from case1_L[OF assms[unfolded Node RED]] obtain s1 where
      c1: "seq (set_color (Some wa) BLACK)
            (seq (set_color (Some pa) RED)
            (seq (leftRotate (Some pa))
                 (get right (Some pa)))) s = Some (Inr (rootp wl), s1)"
      and f1: "focus s1 (LF pa pk pv RED wl # LF wa wk wv BLACK wr # rest) xt"
      by blast
    show ?thesis
      using deleteFixup_left_tail_focus[OF f1] g c1 Node RED
      by (simp add: deleteFixup_left_def bind_apply ret_apply)
  next
    case BLACK
    show ?thesis
      using deleteFixup_left_tail_focus[OF assms] g Node BLACK
      by (simp add: deleteFixup_left_def bind_apply ret_apply)
  qed
qed

lemma deleteFixup_right_focus:
  assumes "focus s (RF w pa pk pv pc # rest) xt"
  shows "\<exists>s' r. deleteFixup_right (Some pa) s = Some (Inr r, s')
     \<and> dstep_ok s' (fst (d_case1 (RF w pa pk pv pc)) @ rest)
          (d_rest (snd (d_case1 (RF w pa pk pv pc))) xt) r"
proof (cases w)
  case Leaf
  have g: "get left (Some pa) s = Some (Inr None, s)" "is_red None s = Some (Inr False, s)"
    using assms Leaf by (simp_all add: heap_simps)
  show ?thesis
    using deleteFixup_right_tail_focus[OF assms] g Leaf
    by (simp add: deleteFixup_right_def prog_simps)
next
  case (Node wl wa wk wv wc wr)
  have g: "get left (Some pa) s = Some (Inr (Some wa), s)"
    "is_red (Some wa) s = Some (Inr (wc = RED), s)"
    using assms Node by (simp_all add: heap_simps)
  show ?thesis
  proof (cases wc)
    case RED
    from case1_R[OF assms[unfolded Node RED]] obtain s1 where
      c1: "seq (set_color (Some wa) BLACK)
            (seq (set_color (Some pa) RED)
            (seq (rightRotate (Some pa))
                 (get left (Some pa)))) s = Some (Inr (rootp wr), s1)"
      and f1: "focus s1 (RF wr pa pk pv RED # RF wl wa wk wv BLACK # rest) xt"
      by blast
    show ?thesis
      using deleteFixup_right_tail_focus[OF f1] g c1 Node RED
      by (simp add: deleteFixup_right_def bind_apply ret_apply)
  next
    case BLACK
    show ?thesis
      using deleteFixup_right_tail_focus[OF assms] g Node BLACK
      by (simp add: deleteFixup_right_def bind_apply ret_apply)
  qed
qed

lemma deleteFixup_left_degenerate:
  assumes "focus s (RF Leaf pa pk pv pc # rest) Leaf"
  shows "deleteFixup_left (Some pa) s = Some (Inr (False, Some pa, ctx_parent rest), s)"
  using assms
  by (simp add: deleteFixup_left_def deleteFixup_left_tail_def heap_simps)

lemma deleteFixup_body_focus:
  assumes "focus s (f # rest) xt"
  shows "\<exists>s' r. deleteFixup_body (rootp xt) (ctx_parent (f # rest)) s = Some (Inr r, s')
     \<and> dstep_ok s' (fst (d_case1 f) @ rest) (d_rest (snd (d_case1 f)) xt) r"
proof (cases f)
  case (LF pa pk pv pc w)
  have g: "get left (Some pa) s = Some (Inr (rootp xt), s)"
    using assms LF by (cases xt) (simp_all add: heap_simps)
  show ?thesis
    using deleteFixup_left_focus[OF assms[unfolded LF]] g LF
    by (simp add: deleteFixup_body_def bind_apply ret_apply)
next
  case (RF w pa pk pv pc)
  have g: "get left (Some pa) s = Some (Inr (rootp w), s)"
    using assms RF by (cases w) (simp_all add: heap_simps)
  show ?thesis
  proof (cases "rootp xt = rootp w")
    case True
    then have e: "xt = Leaf" "w = Leaf"
      using assms RF by (cases xt; cases w; simp add: heap_simps)+
    show ?thesis
      using deleteFixup_left_degenerate[OF assms[unfolded RF e]] g RF e True assms
      by (simp add: deleteFixup_body_def bind_apply ret_apply dstep_ok_def focus_up)
  next
    case False
    show ?thesis
      using deleteFixup_right_focus[OF assms[unfolded RF]] g RF False
      by (simp add: deleteFixup_body_def bind_apply ret_apply)
  qed
qed

lemma d_case1_red:
  assumes "fst (d_case1 f) \<noteq> []" and "d_rest (snd (d_case1 f)) xt = MoveUp t'"
  shows "color_of t' = RED"
proof -
  have "color_of t' = frame_color (snd (d_case1 f))"
    using assms(2) by (cases "(snd (d_case1 f), xt)" rule: d_rest.cases) (auto split: if_splits)
  moreover have "frame_color (snd (d_case1 f)) = RED"
    using assms(1) by (cases f rule: d_case1.cases) auto
  ultimately show ?thesis by simp
qed

lemma deleteFixup_loop_focus:
  assumes "focus s ctx xt"
  shows "\<exists>s' ctx' t'. deleteFixup_loop (rootp xt) (ctx_parent ctx) s = Some (Inr (rootp t'), s')
     \<and> focus s' ctx' t' \<and> dfix ctx xt = plug ctx' (paint BLACK t')"
  using assms
proof (induction ctx arbitrary: xt s)
  case Nil
  show ?case
    using deleteFixup_cond_focus[OF Nil] Nil
    by (subst deleteFixup_loop.simps) (auto simp add: bind_apply ret_apply intro!: exI[of _ "[]"])
next
  case (Cons f rest)
  note c = deleteFixup_cond_focus[OF Cons.prems]
  show ?case
  proof (cases "color_of xt = BLACK")
    case False
    then have r: "color_of xt = RED" by (cases "color_of xt") auto
    show ?thesis
      using c False Cons.prems r
      by (subst deleteFixup_loop.simps)
        (auto simp add: bind_apply ret_apply intro!: exI[of _ "f # rest"] exI[of _ xt])
  next
    case True
    from deleteFixup_body_focus[OF Cons.prems] obtain s1 r where
      b: "deleteFixup_body (rootp xt) (ctx_parent (f # rest)) s = Some (Inr r, s1)"
      and ok: "dstep_ok s1 (fst (d_case1 f) @ rest) (d_rest (snd (d_case1 f)) xt) r"
      by blast
    have unf: "deleteFixup_loop (rootp xt) (ctx_parent (f # rest)) s =
        (if fst r then Some (Inr (fst (snd r)), s1)
         else deleteFixup_loop (fst (snd r)) (snd (snd r)) s1)"
      using c True b by (subst deleteFixup_loop.simps) (simp add: bind_apply ret_apply)
    show ?thesis
    proof (cases "d_rest (snd (d_case1 f)) xt")
      case (Break t')
      then have r: "fst r" "fst (snd r) = root s1" and f1: "focus s1 (fst (d_case1 f) @ rest) t'"
        using ok by (simp_all add: dstep_ok_def)
      have f2: "focus s1 [] (plug (fst (d_case1 f) @ rest) t')"
        using f1 by (simp add: focus_tree_in)
      then have "root s1 = rootp (plug (fst (d_case1 f) @ rest) t')"
        by (simp add: focus_def)
      then show ?thesis
        using unf r f2 Break True
        by (auto intro!: exI[of _ "[]"] exI[of _ "plug (fst (d_case1 f) @ rest) t'"])
    next
      case (MoveUp t')
      then have r: "r = (False, rootp t', ctx_parent (fst (d_case1 f) @ rest))"
        and f1: "focus s1 (fst (d_case1 f) @ rest) t'"
        using ok by (simp_all add: dstep_ok_def)
      show ?thesis
      proof (cases "fst (d_case1 f) = []")
        case e: True
        from Cons.IH[OF f1[unfolded e, simplified]] show ?thesis
          using unf r e MoveUp True by simp
      next
        case ne: False
        have red: "color_of t' = RED" using d_case1_red[OF ne MoveUp] .
        have "deleteFixup_loop (rootp t') (ctx_parent (fst (d_case1 f) @ rest)) s1
            = Some (Inr (rootp t'), s1)"
          using deleteFixup_cond_focus[OF f1] red
          by (subst deleteFixup_loop.simps) (simp add: bind_apply ret_apply)
        then show ?thesis
          using unf r ne MoveUp True f1
          by (auto intro!: exI[of _ "fst (d_case1 f) @ rest"] exI[of _ t'])
      qed
    qed
  qed
qed

lemma paint_root_focus:
  assumes "focus s ctx t"
  shows "\<exists>s'. (if rootp t \<noteq> None then set_color (rootp t) BLACK else ret ()) s = Some (Inr (), s')
     \<and> focus s' ctx (paint BLACK t)"
  using assms
  apply (cases t)
  apply (simp_all add: heap_simps)
  done

lemma deleteFixup_focus:
  assumes "focus s ctx xt"
  shows "\<exists>s'. deleteFixup (rootp xt) (ctx_parent ctx) s = Some (Inr (), s')
     \<and> tree_in s' (dfix ctx xt)"
proof -
  from deleteFixup_loop_focus[OF assms] obtain s1 ctx' t' where
    l: "deleteFixup_loop (rootp xt) (ctx_parent ctx) s = Some (Inr (rootp t'), s1)"
    and f1: "focus s1 ctx' t'" and e: "dfix ctx xt = plug ctx' (paint BLACK t')"
    by blast
  from paint_root_focus[OF f1] obtain s2 where
    p: "(if rootp t' \<noteq> None then set_color (rootp t') BLACK else ret ()) s1 = Some (Inr (), s2)"
    and f2: "focus s2 ctx' (paint BLACK t')" by blast
  have "deleteFixup (rootp xt) (ctx_parent ctx) s = Some (Inr (), s2)"
    unfolding deleteFixup_def bind_apply l using p by simp
  moreover have "tree_in s2 (dfix ctx xt)"
    using f2 e by (simp add: focus_tree_in)
  ultimately show ?thesis by blast
qed

section \<open>Invariants of the removal fixup\<close>

lemma paint_black_id: "color_of t = BLACK \<Longrightarrow> paint BLACK t = t"
  by (cases t) auto

lemma no_red_red_paint: "no_red_red t \<Longrightarrow> no_red_red (paint BLACK t)"
  by (cases t) auto

lemma balanced_paint [simp]: "balanced (paint c t) = balanced t"
  by (cases t) auto

lemma color_of_paint_black [simp]: "color_of (paint BLACK t) = BLACK"
  by (cases t) auto

lemma bheight_paint_red: "color_of t = RED \<Longrightarrow> bheight (paint BLACK t) = bheight t + 1"
  by (cases t) auto

lemma rbt_paint: "no_red_red (paint BLACK t) \<Longrightarrow> balanced t \<Longrightarrow> rbt (paint BLACK t)"
  by (simp add: rbt_def)

lemma d_case1_inv:
  assumes "ctx_nrr (f # rest)" and "ctx_bal (f # rest) (Suc n)" and "root_black (f # rest)"
  shows "ctx_nrr (snd (d_case1 f) # fst (d_case1 f) @ rest)
     \<and> ctx_bal (snd (d_case1 f) # fst (d_case1 f) @ rest) (Suc n)
     \<and> root_black (snd (d_case1 f) # fst (d_case1 f) @ rest)
     \<and> color_of (sibling (snd (d_case1 f))) = BLACK
     \<and> (fst (d_case1 f) \<noteq> [] \<longrightarrow> frame_color (snd (d_case1 f)) = RED)"
  using assms
  by (cases f rule: d_case1.cases) (auto simp add: root_black_def)

lemma d_rest_inv:
  assumes "color_of xt = BLACK" and "no_red_red xt" and "balanced xt"
    and "no_red_red (sibling f)" and "balanced (sibling f)"
    and "bheight (sibling f) = Suc (bheight xt)" and "color_of (sibling f) = BLACK"
  shows "case d_rest f xt of
      MoveUp t' \<Rightarrow> no_red_red (paint BLACK t') \<and> balanced t' \<and> color_of t' = frame_color f
         \<and> bheight t' = bheight xt + (if frame_color f = BLACK then 1 else 0)
    | Break t' \<Rightarrow> no_red_red t' \<and> balanced t' \<and> color_of t' = frame_color f
         \<and> bheight t' = Suc (bheight xt) + (if frame_color f = BLACK then 1 else 0)"
proof (cases f)
  case (LF pa pk pv pc w)
  then obtain sl sa sk sv sr where w: "w = Node sl sa sk sv BLACK sr"
    using assms(6,7) by (cases w) auto
  show ?thesis
  proof (cases "color_of sl = BLACK \<and> color_of sr = BLACK")
    case True
    then show ?thesis using assms LF w by auto
  next
    case nb: False
    show ?thesis
    proof (cases "color_of sr = BLACK")
      case False
      then obtain srl sra srk srv srr where "sr = Node srl sra srk srv RED srr"
        by (cases sr) auto
      then show ?thesis using assms LF w by auto
    next
      case True
      then have "color_of sl = RED" using nb by simp
      then obtain sll sla slk slv slr where "sl = Node sll sla slk slv RED slr"
        by (cases sl) auto
      then show ?thesis using assms LF w True by (auto simp add: paint_black_id)
    qed
  qed
next
  case (RF w pa pk pv pc)
  then obtain sl sa sk sv sr where w: "w = Node sl sa sk sv BLACK sr"
    using assms(6,7) by (cases w) auto
  show ?thesis
  proof (cases "color_of sl = BLACK \<and> color_of sr = BLACK")
    case True
    then show ?thesis using assms RF w by auto
  next
    case nb: False
    show ?thesis
    proof (cases "color_of sl = BLACK")
      case False
      then obtain sll sla slk slv slr where "sl = Node sll sla slk slv RED slr"
        by (cases sl) auto
      then show ?thesis using assms RF w by auto
    next
      case True
      then have "color_of sr = RED" using nb by simp
      then obtain srl sra srk srv srr where "sr = Node srl sra srk srv RED srr"
        by (cases sr) auto
      then show ?thesis using assms RF w True by (auto simp add: paint_black_id)
    qed
  qed
qed

lemma plug_above_inv:
  assumes "ctx_nrr (f # rest)" and "ctx_bal (f # rest) n"
    and "no_red_red t'" and "balanced t'" and "color_of t' = frame_color f"
    and "bheight t' = n + (if frame_color f = BLACK then 1 else 0)"
  shows "no_red_red (plug rest t') \<and> balanced (plug rest t')"
  using assms by (cases rest) (auto simp add: no_red_red_plug balanced_plug simp del: plug.simps)

lemma root_black_tl: "root_black (f # rest) \<Longrightarrow> root_black rest"
  by (cases rest) (auto simp add: root_black_def)

lemma root_black_plug:
  "root_black ctx \<Longrightarrow> ctx \<noteq> [] \<Longrightarrow> color_of (plug ctx t) = BLACK"
  by (simp add: color_of_plug root_black_def)

lemma dfix_rbt:
  assumes "no_red_red (paint BLACK xt)" and "balanced xt" and "ctx_nrr ctx"
    and "ctx_bal ctx (Suc (bheight xt))" and "root_black ctx"
  shows "rbt (dfix ctx xt)"
  using assms
proof (induction ctx arbitrary: xt)
  case Nil
  then show ?case by (simp add: rbt_paint)
next
  case (Cons f rest)
  show ?case
  proof (cases "color_of xt = RED")
    case True
    have "color_of (plug (f # rest) (paint BLACK xt)) = BLACK"
      using root_black_plug[OF Cons.prems(5), of "paint BLACK xt"] by simp
    moreover have "no_red_red (plug (f # rest) (paint BLACK xt))"
      using Cons.prems(1,3) by (subst no_red_red_plug) simp
    moreover have "balanced (plug (f # rest) (paint BLACK xt))"
      using Cons.prems(2,4) True by (subst balanced_plug) (simp add: bheight_paint_red)
    ultimately show ?thesis using True by (simp add: rbt_def)
  next
    case False
    then have blk: "color_of xt = BLACK" by simp
    then have nx: "no_red_red xt" using Cons.prems(1) by (simp add: paint_black_id)
    let ?f = "snd (d_case1 f)" and ?e = "fst (d_case1 f)"
    note c1 = d_case1_inv[OF Cons.prems(3,4,5)]
    from c1 have sib: "no_red_red (sibling ?f)" "balanced (sibling ?f)"
      "bheight (sibling ?f) = Suc (bheight xt)" "color_of (sibling ?f) = BLACK"
      by simp_all
    note dr = d_rest_inv[OF blk nx Cons.prems(2) sib]
    from c1 have cn: "ctx_nrr (?f # ?e @ rest)" and cb: "ctx_bal (?f # ?e @ rest) (Suc (bheight xt))"
      by simp_all
    have rb: "root_black (?e @ rest)"
      using root_black_tl[of ?f "?e @ rest"] c1 by simp
    show ?thesis
    proof (cases "d_rest ?f xt")
      case (Break t')
      then have t: "no_red_red t'" "balanced t'" "color_of t' = frame_color ?f"
        "bheight t' = Suc (bheight xt) + (if frame_color ?f = BLACK then 1 else 0)"
        using dr by simp_all
      from plug_above_inv[OF cn cb t] show ?thesis
        using Break blk by (simp add: rbt_paint no_red_red_paint)
    next
      case (MoveUp t')
      then have t: "no_red_red (paint BLACK t')" "balanced t'" "color_of t' = frame_color ?f"
        "bheight t' = bheight xt + (if frame_color ?f = BLACK then 1 else 0)"
        using dr by simp_all
      show ?thesis
      proof (cases "?e = []")
        case True
        have "ctx_nrr rest" "ctx_bal rest (Suc (bheight t'))" "root_black rest"
          using cn cb rb t True by auto
        from Cons.IH[OF t(1,2) this] show ?thesis
          using MoveUp blk True by simp
      next
        case ne: False
        then have red: "frame_color ?f = RED" using c1 by simp
        then have "color_of t' = RED" using t by simp
        then have bh: "bheight (paint BLACK t') = Suc (bheight xt)"
          using t(4) red by (simp add: bheight_paint_red)
        have "no_red_red (plug (?e @ rest) (paint BLACK t'))"
          using cn t(1) by (subst no_red_red_plug) simp
        moreover have "balanced (plug (?e @ rest) (paint BLACK t'))"
          using cb t(2) bh red by (subst balanced_plug) simp
        moreover have "color_of (plug (?e @ rest) (paint BLACK t')) = BLACK"
          using root_black_plug[OF rb] ne by simp
        ultimately show ?thesis using MoveUp blk ne by (simp add: rbt_def)
      qed
    qed
  qed
qed

lemma keys_d_case1:
  "keys (plug (snd (d_case1 f) # fst (d_case1 f) @ rest) t) = keys (plug (f # rest) t)"
  by (cases f rule: d_case1.cases) (auto intro!: keys_plug_cong)

lemma keys_d_rest:
  "keys (case d_rest f xt of MoveUp t' \<Rightarrow> t' | Break t' \<Rightarrow> t') = keys (plug1 f xt)"
proof (cases f)
  case (LF pa pk pv pc w)
  show ?thesis
  proof (cases w)
    case Leaf
    then show ?thesis using LF by simp
  next
    case (Node sl sa sk sv sc sr)
    then show ?thesis using LF by (cases sl; cases sr) auto
  qed
next
  case (RF w pa pk pv pc)
  show ?thesis
  proof (cases w)
    case Leaf
    then show ?thesis using RF by simp
  next
    case (Node sl sa sk sv sc sr)
    then show ?thesis using RF by (cases sl; cases sr) auto
  qed
qed

lemma keys_plug_paint [simp]: "keys (plug ctx (paint c t)) = keys (plug ctx t)"
  by (rule keys_plug_cong) simp

lemma keys_dfix: "keys (dfix ctx xt) = keys (plug ctx xt)"
proof (induction ctx arbitrary: xt)
  case Nil
  show ?case by simp
next
  case (Cons f rest)
  let ?f = "snd (d_case1 f)" and ?e = "fst (d_case1 f)"
  have k: "\<And>t'. keys t' = keys (plug1 ?f xt) \<Longrightarrow> keys (plug (?e @ rest) t') = keys (plug (f # rest) xt)"
  proof -
    fix t' :: "('a, 'b) tree"
    assume "keys t' = keys (plug1 ?f xt)"
    then have "keys (plug (?e @ rest) t') = keys (plug (?e @ rest) (plug1 ?f xt))"
      by (rule keys_plug_cong)
    then show "keys (plug (?e @ rest) t') = keys (plug (f # rest) xt)"
      using keys_d_case1[of f rest xt] by simp
  qed
  have p: "keys (plug (f # rest) (paint BLACK xt)) = keys (plug (f # rest) xt)"
    by (rule keys_plug_paint)
  show ?case
  proof (cases "d_rest ?f xt")
    case (Break t')
    then have "keys t' = keys (plug1 ?f xt)" using keys_d_rest[of ?f xt] by simp
    from k[OF this] show ?thesis using Break p by (simp del: plug.simps)
  next
    case (MoveUp t')
    then have "keys t' = keys (plug1 ?f xt)" using keys_d_rest[of ?f xt] by simp
    from k[OF this] show ?thesis using MoveUp Cons.IH[of t'] p by (auto simp del: plug.simps)
  qed
qed

section \<open>Refinement of \<open>remove\<close>\<close>

lemma focus_append: "focus s (xs @ ys) t \<longleftrightarrow> focus s ys (plug xs t)"
  by (simp add: focus_tree_in plug_append)

lemma splice_left_null:
  assumes "focus s ctx (Node Leaf za zk zv zc zr)"
  shows "\<exists>s'. bind (get right (Some za)) (\<lambda>x.
               bind (get parent (Some za)) (\<lambda>fixupParent.
               seq (bind (get right (Some za)) (transplant (Some za)))
                   (ret (zc, x, fixupParent)))) s = Some (Inr (zc, rootp zr, ctx_parent ctx), s')
     \<and> focus s' ctx zr \<and> heap s' za \<noteq> None"
  using assms
  apply (cases ctx rule: ctx_parent.cases; cases zr)
  apply (simp_all add: transplant_def heap_simps)
  done

lemma splice_right_null:
  assumes "focus s ctx (Node zl za zk zv zc Leaf)"
  shows "\<exists>s'. bind (get left (Some za)) (\<lambda>x.
               bind (get parent (Some za)) (\<lambda>fixupParent.
               seq (bind (get left (Some za)) (transplant (Some za)))
                   (ret (zc, x, fixupParent)))) s = Some (Inr (zc, rootp zl, ctx_parent ctx), s')
     \<and> focus s' ctx zl \<and> heap s' za \<noteq> None"
  using assms
  apply (cases ctx rule: ctx_parent.cases; cases zl)
  apply (simp_all add: transplant_def heap_simps)
  done

lemma detach_min:
  assumes "focus s (f # cx) (Node Leaf ya yk yv yc yr)"
  shows "\<exists>s'. bind (get right (Some ya)) (transplant (Some ya)) s = Some (Inr (), s')
     \<and> focus s' (f # cx) yr
     \<and> heap s' ya = Some \<lparr>key = yk, val = yv, color = yc, parent = ctx_parent [f],
          left = None, right = rootp yr\<rparr>"
  using assms
  apply (cases f; cases yr)
  apply (simp_all add: transplant_def heap_simps)
  done

lemma replace_node:
  assumes "focus s ctx (Node zl za zk zv zc zr)"
    and "heap s ya = Some \<lparr>key = yk, val = yv, color = yc, parent = yp, left = yl, right = yr\<rparr>"
    and "ya \<notin> set (addrs zl)" and "ya \<noteq> za" and "ya \<notin> set (addrs zr)" and "ya \<notin> set (ctx_addrs ctx)"
  shows "\<exists>s'. seq (bind (get right (Some za)) (set_right (Some ya)))
           (seq (bind (get right (Some ya)) (\<lambda>yr.
                   if yr \<noteq> None then set_parent yr (Some ya) else ret ()))
           (seq (transplant (Some za) (Some ya))
           (seq (bind (get left (Some za)) (set_left (Some ya)))
           (seq (bind (get left (Some ya)) (\<lambda>yl.
                   if yl \<noteq> None then set_parent yl (Some ya) else ret ()))
           (seq (bind (get color (Some za)) (set_color (Some ya)))
                (ret res)))))) s = Some (Inr res, s')
     \<and> focus s' ctx (Node zl ya yk yv zc zr) \<and> heap s' za \<noteq> None"
  using assms
  apply (cases ctx rule: ctx_parent.cases; cases zl; cases zr)
  apply (simp_all add: transplant_def heap_simps)
  done

lemma replace_by_right_child:
  assumes "focus s ctx (Node zl za zk zv zc (Node Leaf ya yk yv yc yr))"
  shows "\<exists>s'. seq (transplant (Some za) (Some ya))
           (seq (bind (get left (Some za)) (set_left (Some ya)))
           (seq (bind (get left (Some ya)) (\<lambda>yl.
                   if yl \<noteq> None then set_parent yl (Some ya) else ret ()))
           (seq (bind (get color (Some za)) (set_color (Some ya)))
                (ret res)))) s = Some (Inr res, s')
     \<and> focus s' ctx (Node zl ya yk yv zc yr) \<and> heap s' za \<noteq> None"
  using assms
  apply (cases ctx rule: ctx_parent.cases; cases zl; cases yr)
  apply (simp_all add: transplant_def heap_simps)
  done

lemma delete_dangling:
  assumes "focus s ctx t" and "heap s za \<noteq> None" and "za \<notin> set (addrs t)"
    and "za \<notin> set (ctx_addrs ctx)"
  shows "\<exists>s'. delete_node (Some za) s = Some (Inr (), s') \<and> focus s' ctx t"
  using assms
  by (auto simp add: delete_node_def focus_def)

lemma bind_eval: "m s = Some (Inr x, s') \<Longrightarrow> bind m f s = f x s'"
  by (simp add: bind_apply)

lemma get_bind: "get f p s = Some (Inr x, s') \<Longrightarrow> bind (get f p) g s = g x s'"
  by (rule bind_eval)

lemma seq_eval: "m s = Some (Inr x, s') \<Longrightarrow> seq m n s = n s'"
  by (simp add: seq_apply)

lemma bind_assoc: "bind (bind m f) g = bind m (\<lambda>x. bind (f x) g)"
  by (auto simp add: bind_def fun_eq_iff split: option.splits sum.splits prod.splits)

lemma seq_bind: "seq (bind m f) n = bind m (\<lambda>x. seq (f x) n)"
  by (simp add: seq_def bind_assoc)

lemma bind_ret: "bind (ret x) f = f x"
  by (simp add: bind_def ret_def fun_eq_iff)

lemma seq_ret: "seq (ret x) n = n"
  by (simp add: seq_def bind_ret)

lemma ctx_addrs_append: "ctx_addrs (xs @ ys) = ctx_addrs xs @ ctx_addrs ys"
  by (induction xs) auto

lemma ctx_parent_append: "xs \<noteq> [] \<Longrightarrow> ctx_parent (xs @ ys) = ctx_parent xs"
  by (cases xs rule: ctx_parent.cases) auto

lemma focus_gets:
  assumes "focus s cx (Node l a k v c r)"
  shows "get color (Some a) s = Some (Inr c, s)"
    and "get left (Some a) s = Some (Inr (rootp l), s)"
    and "get right (Some a) s = Some (Inr (rootp r), s)"
    and "get parent (Some a) s = Some (Inr (ctx_parent cx), s)"
  using assms by (simp_all add: focus_def prog_simps)

lemma two_children_direct:
  assumes "focus s ctx (Node zl za zk zv zc (Node Leaf ya yk yv yc yr))"
  shows "\<exists>s'. remove_two_children (Some za) (Some ya) s = Some (Inr (yc, rootp yr, Some ya), s')
     \<and> focus s' ctx (Node zl ya yk yv zc yr) \<and> heap s' za \<noteq> None"
  using assms
  apply (cases ctx rule: ctx_parent.cases; cases zl; cases yr)
  apply (simp_all add: remove_two_children_def transplant_def heap_simps)
  done

lemma ctx_parent_in: "ctx_parent cx = Some a \<Longrightarrow> a \<in> set (ctx_addrs cx)"
  by (cases cx rule: ctx_parent.cases) auto

lemma two_children_deep:
  assumes f: "focus s (f # sp @ RF zl za zk zv zc # ctx) (Node Leaf ya yk yv yc yr)"
  shows "\<exists>s'. remove_two_children (Some za) (Some ya) s
        = Some (Inr (yc, rootp yr, ctx_parent [f]), s')
     \<and> focus s' (f # sp @ RF zl ya yk yv zc # ctx) yr \<and> heap s' za \<noteq> None"
proof -
  let ?res = "(yc, rootp yr, ctx_parent [f])"
  note g = focus_gets[OF f]
  have d: "distinct (ya # addrs yr @ ctx_addrs (f # sp) @ za # addrs zl @ ctx_addrs ctx)"
    using f by (simp add: focus_def ctx_addrs_append)
  obtain pa where pa: "ctx_parent [f] = Some pa" by (cases f) auto
  then have "pa \<in> set (ctx_addrs (f # sp))" by (cases f) auto
  then have ne: "pa \<noteq> za" using d by auto
  have pf: "ctx_parent (f # sp @ RF zl za zk zv zc # ctx) = Some pa"
    using pa by (cases f) auto
  from detach_min[OF f] obtain s1 where
    t1: "bind (get right (Some ya)) (transplant (Some ya)) s = Some (Inr (), s1)"
    and f1: "focus s1 (f # sp @ RF zl za zk zv zc # ctx) yr"
    and h1: "heap s1 ya = Some \<lparr>key = yk, val = yv, color = yc, parent = ctx_parent [f],
          left = None, right = rootp yr\<rparr>"
    by blast
  have f1': "focus s1 ctx (Node zl za zk zv zc (plug (f # sp) yr))"
    using f1 focus_append[of s1 "f # sp" "RF zl za zk zv zc # ctx" yr]
    by (simp add: focus_up del: plug.simps)
  have nin: "ya \<notin> set (addrs zl)" "ya \<noteq> za" "ya \<notin> set (addrs (plug (f # sp) yr))"
    "ya \<notin> set (ctx_addrs ctx)"
    using d by (auto simp add: set_addrs_plug simp del: plug.simps)
  from replace_node[OF f1' h1 nin, of ?res] obtain s2 where
    t2: "seq (bind (get right (Some za)) (set_right (Some ya)))
           (seq (bind (get right (Some ya)) (\<lambda>yr.
                   if yr \<noteq> None then set_parent yr (Some ya) else ret ()))
           (seq (transplant (Some za) (Some ya))
           (seq (bind (get left (Some za)) (set_left (Some ya)))
           (seq (bind (get left (Some ya)) (\<lambda>yl.
                   if yl \<noteq> None then set_parent yl (Some ya) else ret ()))
           (seq (bind (get color (Some za)) (set_color (Some ya)))
                (ret ?res)))))) s1 = Some (Inr ?res, s2)"
    and f2: "focus s2 ctx (Node zl ya yk yv zc (plug (f # sp) yr))"
    and h2: "heap s2 za \<noteq> None"
    by blast
  have f2': "focus s2 (f # sp @ RF zl ya yk yv zc # ctx) yr"
    using f2 focus_append[of s2 "f # sp" "RF zl ya yk yv zc # ctx" yr]
    by (simp add: focus_up del: plug.simps)
  have "remove_two_children (Some za) (Some ya) s =
     seq (bind (get right (Some ya)) (transplant (Some ya)))
       (seq (bind (get right (Some za)) (set_right (Some ya)))
           (seq (bind (get right (Some ya)) (\<lambda>yr.
                   if yr \<noteq> None then set_parent yr (Some ya) else ret ()))
           (seq (transplant (Some za) (Some ya))
           (seq (bind (get left (Some za)) (set_left (Some ya)))
           (seq (bind (get left (Some ya)) (\<lambda>yl.
                   if yl \<noteq> None then set_parent yl (Some ya) else ret ()))
           (seq (bind (get color (Some za)) (set_color (Some ya)))
                (ret ?res))))))) s"
    using ne
    by (simp add: remove_two_children_def get_bind[OF g(1)] get_bind[OF g(3)]
        get_bind[OF g(4)] pf pa seq_bind seq_assoc)
  also have "\<dots> = Some (Inr ?res, s2)"
    by (subst seq_eval, rule t1, rule t2)
  finally show ?thesis using f2' h2 by blast
qed

lemma locate_props:
  "locate k ctx t = Some (cx, z) \<Longrightarrow>
   plug cx z = plug ctx t \<and> (\<exists>l a v c r. z = Node l a k v c r) \<and> lookup t k = rootp z"
  by (induction t arbitrary: ctx) (auto split: if_splits)

lemma locate_None: "locate k ctx t = None \<longleftrightarrow> lookup t k = None"
  by (induction t arbitrary: ctx) auto

lemma ctx_lkeys_append: "ctx_lkeys (xs @ ys) = ctx_lkeys ys @ ctx_lkeys xs"
  by (induction xs rule: ctx_lkeys.induct) auto

lemma ctx_rkeys_append: "ctx_rkeys (xs @ ys) = ctx_rkeys xs @ ctx_rkeys ys"
  by (induction xs rule: ctx_rkeys.induct) auto

lemma min_split_props:
  "t \<noteq> Leaf \<Longrightarrow> \<exists>sp ya yk yv yc yr.
     min_split ctx t = (sp @ ctx, Node Leaf ya yk yv yc yr)
     \<and> plug sp (Node Leaf ya yk yv yc yr) = t \<and> ctx_lkeys sp = []
     \<and> tree_min t = Some (ya, yk)"
proof (induction t arbitrary: ctx)
  case Leaf
  then show ?case by simp
next
  case (Node l a k v c r)
  show ?case
  proof (cases l)
    case Leaf
    then show ?thesis by simp
  next
    case (Node ll la lk lv lc lr)
    then have "l \<noteq> Leaf" by simp
    from Node.IH(1)[OF this, of "LF a k v c r # ctx"] obtain sp ya yk yv yc yr where
      m: "min_split (LF a k v c r # ctx) l = (sp @ LF a k v c r # ctx, Node Leaf ya yk yv yc yr)"
      and p: "plug sp (Node Leaf ya yk yv yc yr) = l" and lk: "ctx_lkeys sp = []"
      and tm: "tree_min l = Some (ya, yk)"
      by blast
    have "min_split ctx (Node l a k v c r) = ((sp @ [LF a k v c r]) @ ctx, Node Leaf ya yk yv yc yr)"
      using m Node by simp
    moreover have "plug (sp @ [LF a k v c r]) (Node Leaf ya yk yv yc yr) = Node l a k v c r"
      using p by (simp add: plug_append)
    moreover have "ctx_lkeys (sp @ [LF a k v c r]) = []"
      using lk by (simp add: ctx_lkeys_append)
    moreover have "tree_min (Node l a k v c r) = Some (ya, yk)"
      using tm Node by simp
    ultimately show ?thesis by blast
  qed
qed

lemma remove_splice:
  assumes f: "focus s ctx (Node zl za zk zv zc zr)"
    and d: "del_at ctx (Node zl za zk zv zc zr) = (c, cx, x)"
  shows "\<exists>s'. (if rootp zl = None then
               bind (get right (Some za)) (\<lambda>x.
               bind (get parent (Some za)) (\<lambda>fixupParent.
               seq (bind (get right (Some za)) (transplant (Some za)))
                   (ret (zc, x, fixupParent))))
             else
               bind (get right (Some za)) (\<lambda>zr.
               if zr = None then
                 bind (get left (Some za)) (\<lambda>x.
                 bind (get parent (Some za)) (\<lambda>fixupParent.
                 seq (bind (get left (Some za)) (transplant (Some za)))
                     (ret (zc, x, fixupParent))))
               else
                 bind (bind (get right (Some za)) minimum) (remove_two_children (Some za)))) s
        = Some (Inr (c, rootp x, ctx_parent cx), s')
     \<and> focus s' cx x \<and> heap s' za \<noteq> None \<and> za \<notin> set (addrs x) \<and> za \<notin> set (ctx_addrs cx)"
proof -
  note g = focus_gets[OF f]
  have dist: "distinct (addrs zl @ za # addrs zr @ ctx_addrs ctx)"
    using f by (simp add: focus_def)
  show ?thesis
  proof (cases zl)
    case Leaf
    then have e: "c = zc" "cx = ctx" "x = zr" using d by simp_all
    from splice_left_null[OF f[unfolded Leaf]] show ?thesis
      using Leaf e dist by auto
  next
    case zl: (Node ll la lk lv lc lr)
    show ?thesis
    proof (cases zr)
      case Leaf
      then have e: "c = zc" "cx = ctx" "x = zl" using d zl by simp_all
      from splice_right_null[OF f[unfolded Leaf]] show ?thesis
        using Leaf e dist zl by (auto simp add: get_bind[OF g(3)])
    next
      case zr: (Node rl ra rk rv rc rr)
      then have "zr \<noteq> Leaf" by simp
      from min_split_props[OF this, of "[]"] obtain sp ya yk yv yc yr where
        m: "min_split [] zr = (sp, Node Leaf ya yk yv yc yr)"
        and p: "plug sp (Node Leaf ya yk yv yc yr) = zr"
        and tm: "tree_min zr = Some (ya, yk)"
        by auto
      have e: "c = yc" "cx = sp @ RF zl ya yk yv zc # ctx" "x = yr"
        using d zl zr m by simp_all
      have r: "rep (heap s) (Some za) zr" using f by (simp add: focus_def)
      have mn: "minimum (rootp zr) s = Some (Inr (Some ya), s)"
        using minimum_rep[OF r] tm by simp
      have prog: "(if rootp zl = None then
               bind (get right (Some za)) (\<lambda>x.
               bind (get parent (Some za)) (\<lambda>fixupParent.
               seq (bind (get right (Some za)) (transplant (Some za)))
                   (ret (zc, x, fixupParent))))
             else
               bind (get right (Some za)) (\<lambda>zr.
               if zr = None then
                 bind (get left (Some za)) (\<lambda>x.
                 bind (get parent (Some za)) (\<lambda>fixupParent.
                 seq (bind (get left (Some za)) (transplant (Some za)))
                     (ret (zc, x, fixupParent))))
               else
                 bind (bind (get right (Some za)) minimum) (remove_two_children (Some za)))) s
          = remove_two_children (Some za) (Some ya) s"
        using zl zr mn
        by (simp add: get_bind[OF g(3)] bind_assoc bind_eval[of "minimum (Some ra)" s "Some ya" s])
      have fy: "focus s (sp @ RF zl za zk zv zc # ctx) (Node Leaf ya yk yv yc yr)"
        using f p focus_append[of s sp "RF zl za zk zv zc # ctx" "Node Leaf ya yk yv yc yr"]
        by (simp add: focus_up)
      have dy: "distinct (ya # addrs yr @ ctx_addrs sp @ za # addrs zl @ ctx_addrs ctx)"
        using fy by (simp add: focus_def ctx_addrs_append)
      show ?thesis
      proof (cases sp)
        case Nil
        then have zr': "zr = Node Leaf ya yk yv yc yr" using p by simp
        from two_children_direct[OF f[unfolded zr']] obtain s' where
          "remove_two_children (Some za) (Some ya) s = Some (Inr (yc, rootp yr, Some ya), s')"
          and "focus s' ctx (Node zl ya yk yv zc yr)" and "heap s' za \<noteq> None"
          by blast
        then show ?thesis
          unfolding prog using e Nil dy by (auto simp add: focus_up)
      next
        case (Cons f' sp')
        from two_children_deep[OF fy[unfolded Cons, simplified]] obtain s' where
          "remove_two_children (Some za) (Some ya) s
             = Some (Inr (yc, rootp yr, ctx_parent [f']), s')"
          and "focus s' (f' # sp' @ RF zl ya yk yv zc # ctx) yr" and "heap s' za \<noteq> None"
          by blast
        then show ?thesis
          unfolding prog using e Cons dy by (auto simp add: ctx_addrs_append)
      qed
    qed
  qed
qed

lemma remove_focus:
  assumes t: "tree_in s T" and l: "locate k [] T = Some (ctx, z)"
  shows "\<exists>s'. remove_rbt k s = Some (Inr (), s') \<and> tree_in s' (del_tree k T)"
proof -
  from locate_props[OF l] obtain zl za zv zc zr where
    z: "z = Node zl za k zv zc zr" and p: "plug ctx z = T" and lk: "lookup T k = Some za"
    by auto
  have f: "focus s ctx (Node zl za k zv zc zr)"
    using t p z by (simp add: focus_tree_in)
  note g = focus_gets[OF f]
  have sr: "search k s = Some (Inr (Some za), s)"
    using t search_loop_rep[of s None T k] lk
    by (simp add: search_def tree_in_def prog_simps)
  obtain c cx x where d: "del_at ctx (Node zl za k zv zc zr) = (c, cx, x)"
    by (cases "del_at ctx (Node zl za k zv zc zr)") auto
  from remove_splice[OF f d] obtain s1 where
    sp: "(if rootp zl = None then
               bind (get right (Some za)) (\<lambda>x.
               bind (get parent (Some za)) (\<lambda>fixupParent.
               seq (bind (get right (Some za)) (transplant (Some za)))
                   (ret (zc, x, fixupParent))))
             else
               bind (get right (Some za)) (\<lambda>zr.
               if zr = None then
                 bind (get left (Some za)) (\<lambda>x.
                 bind (get parent (Some za)) (\<lambda>fixupParent.
                 seq (bind (get left (Some za)) (transplant (Some za)))
                     (ret (zc, x, fixupParent))))
               else
                 bind (bind (get right (Some za)) minimum) (remove_two_children (Some za)))) s
        = Some (Inr (c, rootp x, ctx_parent cx), s1)"
    and f1: "focus s1 cx x" and h1: "heap s1 za \<noteq> None"
    and n1: "za \<notin> set (addrs x)" "za \<notin> set (ctx_addrs cx)"
    by blast
  from delete_dangling[OF f1 h1 n1] obtain s2 where
    dn: "delete_node (Some za) s2' = Some (Inr (), s2)" and f2: "focus s2 cx x"
    if "s2' = s1" for s2'
    by blast
  have dn1: "delete_node (Some za) s1 = Some (Inr (), s2)" using dn by simp
  have dt: "del_tree k T = (if c = BLACK then dfix cx x else plug cx x)"
    using l d z by (simp add: del_tree_def)
  have run: "remove_rbt k s =
      (if c = BLACK then deleteFixup (rootp x) (ctx_parent cx) else ret ()) s2"
    unfolding remove_rbt_def
    apply (subst bind_eval, rule sr)
    apply (simp only: get_bind[OF g(1)] get_bind[OF g(2)] option.simps if_False)
    apply (subst bind_eval, rule sp)
    apply (subst seq_eval, rule dn1)
    apply simp
    done
  show ?thesis
  proof (cases "c = BLACK")
    case True
    from deleteFixup_focus[OF f2] show ?thesis using run dt True by simp
  next
    case False
    then show ?thesis using run dt f2 by (simp add: ret_apply focus_tree_in)
  qed
qed

lemma preserves_search_loop:
  assumes "reflexive R" and "transitive R"
  shows "preserves R (search_loop k z)"
proof -
  have "R s (snd y)" if run: "search_loop k z s = Some y" for s y
  proof (rule search_loop.raw_induct[where P = "\<lambda>k z s y. R s (snd y)", OF _ run])
    fix loop :: "'a \<Rightarrow> nat option \<Rightarrow> (nat option, 'a, 'b) prog" and k z s y
    assume IH: "\<And>k z s y. loop k z s = Some y \<Longrightarrow> R s (snd y)"
      and eq: "(if z \<noteq> None then
        bind (get key z) (\<lambda>ck.
          if k < ck then bind (get left z) (loop k)
          else if k > ck then bind (get right z) (loop k)
          else ret z) s
      else ret None s) = Some y"
    have l: "preserves R (loop k z)" for k z
      using IH by (auto simp add: preserves_def)
    have "preserves R (if z \<noteq> None then
        bind (get key z) (\<lambda>ck.
          if k < ck then bind (get left z) (loop k)
          else if k > ck then bind (get right z) (loop k)
          else ret z)
      else ret None)"
      by (intro preserves_intros assms l)
    from preservesD[OF this, of s "fst y" "snd y"] eq show "R s (snd y)"
      by (simp split: if_splits)
  qed
  then show ?thesis by (auto simp add: preserves_def)
qed

lemma preserves_minimum_loop:
  assumes "reflexive R" and "transitive R"
  shows "preserves R (minimum_loop z)"
proof -
  have "R s (snd y)" if run: "minimum_loop z s = Some y" for s y
  proof (rule minimum_loop.raw_induct[where P = "\<lambda>z s y. R s (snd y)", OF _ run])
    fix loop :: "nat option \<Rightarrow> (nat option, 'a, 'b) prog" and z s y
    assume IH: "\<And>z s y. loop z s = Some y \<Longrightarrow> R s (snd y)"
      and eq: "bind (get left z) (\<lambda>l. if l \<noteq> None then loop l else ret z) s = Some y"
    have l: "preserves R (loop z)" for z
      using IH by (auto simp add: preserves_def)
    have "preserves R (bind (get left z) (\<lambda>l. if l \<noteq> None then loop l else ret z))"
      by (intro preserves_intros assms l)
    from preservesD[OF this, of s "fst y" "snd y"] eq show "R s (snd y)" by simp
  qed
  then show ?thesis by (auto simp add: preserves_def)
qed

lemma preserves_deleteFixup_loop:
  assumes "reflexive R" and "transitive R" and "\<And>x p. preserves R (deleteFixup_body x p)"
  shows "preserves R (deleteFixup_loop x p)"
proof -
  have "R s (snd y)" if run: "deleteFixup_loop x p s = Some y" for s y
  proof (rule deleteFixup_loop.raw_induct[where P = "\<lambda>x p s y. R s (snd y)"
        and xa = "((x, p), s)" and y = y, unfolded prod.case, OF _ run])
    fix loop :: "nat option \<Rightarrow> nat option \<Rightarrow> (nat option, 'a, 'b) prog" and x p s y
    assume IH: "\<And>x p s y. loop x p s = Some y \<Longrightarrow> R s (snd y)"
      and eq: "bind (deleteFixup_cond x) (\<lambda>b.
       if b then
         bind (deleteFixup_body x p) (\<lambda>r.
           if fst r then ret (fst (snd r))
           else loop (fst (snd r)) (snd (snd r)))
       else ret x) s = Some y"
    have l: "preserves R (loop x p)" for x p
      using IH by (auto simp add: preserves_def)
    have "preserves R (bind (deleteFixup_cond x) (\<lambda>b.
       if b then
         bind (deleteFixup_body x p) (\<lambda>r.
           if fst r then ret (fst (snd r))
           else loop (fst (snd r)) (snd (snd r)))
       else ret x))"
      unfolding deleteFixup_cond_def by (intro preserves_intros assms l)
    from preservesD[OF this, of s "fst y" "snd y"] eq show "R s (snd y)" by simp
  qed
  then show ?thesis by (auto simp add: preserves_def)
qed

lemma alloc_le_remove: "preserves alloc_le (remove_rbt k)"
  unfolding remove_rbt_def remove_two_children_def search_def minimum_def deleteFixup_def
    setter_defs
  by (intro preserves_intros preserves_search_loop preserves_minimum_loop
      preserves_deleteFixup_loop alloc_le_deleteFixup_body)

lemma rbt_plug:
  "rbt (plug ctx t) \<longleftrightarrow>
     no_red_red t \<and> ctx_nrr ctx \<and> (ctx \<noteq> [] \<and> frame_color (hd ctx) = RED \<longrightarrow> color_of t = BLACK)
     \<and> balanced t \<and> ctx_bal ctx (bheight t)
     \<and> (if ctx = [] then color_of t = BLACK else root_black ctx)"
  by (auto simp add: rbt_def no_red_red_plug balanced_plug color_of_plug root_black_def)

lemma bheight_0_black: "bheight t = 0 \<Longrightarrow> color_of t = BLACK \<Longrightarrow> t = Leaf"
  by (cases t) auto

lemma root_black_Nil [simp]: "root_black []"
  by (simp add: root_black_def)

lemma remove_leaf_child_rbt:
  assumes r: "rbt (plug cx (Node l a k v c r))" and lf: "l = Leaf \<or> r = Leaf"
    and x: "x = (if l = Leaf then r else l)"
  shows "rbt (if c = BLACK then dfix cx x else plug cx x)"
proof -
  from r have nrr: "no_red_red (Node l a k v c r)" and cn: "ctx_nrr cx"
    and bal: "balanced (Node l a k v c r)" and cb: "ctx_bal cx (bheight (Node l a k v c r))"
    and rb: "root_black cx" and top: "cx = [] \<longrightarrow> c = BLACK"
    by (auto simp add: rbt_plug split: if_splits)
  have bx: "bheight x = 0" "balanced x" "no_red_red x"
    using lf x bal nrr by auto
  show ?thesis
  proof (cases c)
    case BLACK
    have "ctx_bal cx (Suc (bheight x))" using cb bx BLACK lf x by auto
    from dfix_rbt[OF no_red_red_paint[OF bx(3)] bx(2) cn this rb] show ?thesis
      using BLACK by simp
  next
    case RED
    then have "color_of x = BLACK" using nrr x by auto
    then have xl: "x = Leaf" using bx(1) by (rule bheight_0_black[rotated])
    have ne: "cx \<noteq> []" using top RED by auto
    have "ctx_bal cx 0" using cb RED lf bal by auto
    then show ?thesis using RED xl ne cn rb by (simp add: rbt_plug)
  qed
qed

lemma rbt_relabel:
  "rbt (plug (sp @ RF l a k v c # ctx) t) \<longleftrightarrow> rbt (plug (sp @ RF l a' k' v' c # ctx) t)"
  by (simp add: plug_append rbt_plug)

lemma del_at_rbt:
  assumes "rbt (plug ctx (Node zl za zk zv zc zr))"
    and "del_at ctx (Node zl za zk zv zc zr) = (c, cx, x)"
  shows "rbt (if c = BLACK then dfix cx x else plug cx x)"
proof (cases zl)
  case Leaf
  then have e: "c = zc" "cx = ctx" "x = zr" using assms(2) by simp_all
  from remove_leaf_child_rbt[OF assms(1), of zr] show ?thesis using Leaf e
    by (cases "zc = BLACK") simp_all
next
  case zl: (Node ll la lk lv lc lr)
  show ?thesis
  proof (cases zr)
    case Leaf
    then have e: "c = zc" "cx = ctx" "x = zl" using assms(2) zl by simp_all
    from remove_leaf_child_rbt[OF assms(1), of zl] show ?thesis using Leaf e zl
      by (cases "zc = BLACK") simp_all
  next
    case zr: (Node rl ra rk rv rc rr)
    then have "zr \<noteq> Leaf" by simp
    from min_split_props[OF this, of "[]"] obtain sp ya yk yv yc yr where
      m: "min_split [] zr = (sp, Node Leaf ya yk yv yc yr)"
      and p: "plug sp (Node Leaf ya yk yv yc yr) = zr"
      by auto
    have e: "c = yc" "cx = sp @ RF zl ya yk yv zc # ctx" "x = yr"
      using assms(2) zl zr m by simp_all
    have "rbt (plug (sp @ RF zl za zk zv zc # ctx) (Node Leaf ya yk yv yc yr))"
      using assms(1) p by (simp add: plug_append)
    then have "rbt (plug (sp @ RF zl ya yk yv zc # ctx) (Node Leaf ya yk yv yc yr))"
      by (simp add: rbt_relabel[of sp zl za zk zv zc ctx _ ya yk yv])
    from remove_leaf_child_rbt[OF this, of yr] show ?thesis using e
      by (cases "yc = BLACK") simp_all
  qed
qed

lemma del_at_keys:
  assumes "del_at ctx (Node zl za zk zv zc zr) = (c, cx, x)"
  shows "keys (plug cx x) = ctx_lkeys ctx @ keys zl @ keys zr @ ctx_rkeys ctx"
proof (cases zl)
  case Leaf
  then show ?thesis using assms by (auto simp add: keys_plug)
next
  case zl: (Node ll la lk lv lc lr)
  show ?thesis
  proof (cases zr)
    case Leaf
    then show ?thesis using assms zl by (auto simp add: keys_plug)
  next
    case zr: (Node rl ra rk rv rc rr)
    then have "zr \<noteq> Leaf" by simp
    from min_split_props[OF this, of "[]"] obtain sp ya yk yv yc yr where
      m: "min_split [] zr = (sp, Node Leaf ya yk yv yc yr)"
      and p: "plug sp (Node Leaf ya yk yv yc yr) = zr" and lk: "ctx_lkeys sp = []"
      by auto
    have e: "cx = sp @ RF zl ya yk yv zc # ctx" "x = yr"
      using assms zl zr m by simp_all
    have "keys zr = yk # keys yr @ ctx_rkeys sp"
      using p lk keys_plug[of sp "Node Leaf ya yk yv yc yr"] by simp
    then show ?thesis
      unfolding e by (simp add: keys_plug ctx_lkeys_append ctx_rkeys_append lk)
  qed
qed

lemma del_tree_props:
  assumes r: "rbt T" and l: "locate k [] T = Some (ctx, z)"
  shows "rbt (del_tree k T)
     \<and> (\<exists>A B. keys T = A @ k # B \<and> keys (del_tree k T) = A @ B)"
proof -
  from locate_props[OF l] obtain zl za zv zc zr where
    z: "z = Node zl za k zv zc zr" and p: "plug ctx z = T"
    by auto
  obtain c cx x where d: "del_at ctx (Node zl za k zv zc zr) = (c, cx, x)"
    by (cases "del_at ctx (Node zl za k zv zc zr)") auto
  have dt: "del_tree k T = (if c = BLACK then dfix cx x else plug cx x)"
    using l d z by (simp add: del_tree_def)
  have "rbt (del_tree k T)"
    using del_at_rbt[OF _ d] r p z dt by simp
  moreover have "keys (del_tree k T) = (ctx_lkeys ctx @ keys zl) @ (keys zr @ ctx_rkeys ctx)"
    using del_at_keys[OF d] dt by (simp add: keys_dfix)
  moreover have "keys T = (ctx_lkeys ctx @ keys zl) @ k # (keys zr @ ctx_rkeys ctx)"
    using p z keys_plug[of ctx z] by simp
  ultimately show ?thesis by blast
qed

lemma locate_present:
  assumes "sorted_wrt (<) (keys T)" and "k \<in> set (keys T)"
  shows "\<exists>ctx z. locate k [] T = Some (ctx, z)"
proof -
  have "lookup T k \<noteq> None" using assms by (rule lookup_present)
  then have "locate k [] T \<noteq> None" by (simp add: locate_None)
  then show ?thesis by auto
qed

lemma sorted_remove_mid:
  fixes k :: "'a::linorder"
  assumes "sorted_wrt (<) (A @ k # B)"
  shows "sorted_wrt (<) (A @ B) \<and> set (A @ B) = set (A @ k # B) - {k}"
  using assms by (auto simp add: sorted_wrt_append)

section \<open>Invariants over sequences of calls\<close>

lemma empty_tree_in: "tree_in empty_tree Leaf"
  by (simp add: tree_in_def empty_tree_def)

lemma empty_alloc_ok: "alloc_ok empty_tree"
  by (simp add: alloc_ok_def empty_tree_def)

lemma rbt_Leaf [simp]: "rbt Leaf"
  by (simp add: rbt_def)

lemma insert_rbt_duplicate:
  assumes "tree_in s T" and "alloc_ok s" and "sorted_wrt (<) (keys T)" and "k \<in> set (keys T)"
  shows "\<exists>s'. insert_rbt k v s = Some (Inl DuplicateKey, s') \<and> tree_in s' T \<and> alloc_ok s'
           \<and> root s' = root s \<and> (\<forall>a. heap s a \<noteq> None \<longrightarrow> heap s' a = heap s a)
           \<and> rotations s' = rotations s \<and> transplants s' = transplants s"
proof -
  let ?n = "\<lparr>key = k, val = v, color = RED, parent = None, left = None, right = None\<rparr>"
  let ?s = "s\<lparr>heap := (heap s)(nxt s \<mapsto> ?n), nxt := Suc (nxt s)\<rparr>"
  have fresh: "heap s (nxt s) = None" using assms(2) by (auto simp add: alloc_ok_def)
  have notin: "nxt s \<notin> set (addrs T)"
  proof
    assume "nxt s \<in> set (addrs T)"
    then have "heap s (nxt s) \<noteq> None" using assms(1) rep_addrs_allocated
      by (fastforce simp: tree_in_def)
    with fresh show False by simp
  qed
  have r: "rep (heap ?s) (ctx_parent []) T" using assms(1) notin by (simp add: tree_in_def)
  have d: "descend k [] T = None"
    using lookup_present[OF assms(3,4)] by (simp add: descend_None)
  have "insert_loop k None (rootp T) ?s = Some (Inl DuplicateKey, ?s)"
    using insert_loop_rep[OF r, of k] d by simp
  then have "insert_rbt k v s = Some (Inl DuplicateKey, ?s)"
    using assms(1) by (simp add: insert_rbt_def prog_simps tree_in_def)
  moreover have "tree_in ?s T" using assms(1) notin by (auto simp add: tree_in_def)
  moreover have "\<forall>a. heap s a \<noteq> None \<longrightarrow> heap ?s a = heap s a" using fresh by auto
  moreover have "alloc_ok ?s" using assms(2) by (auto simp add: alloc_ok_def less_Suc_eq)
  ultimately show ?thesis by auto
qed

lemma remove_rbt_missing:
  assumes "tree_in s T" and "k \<notin> set (keys T)"
  shows "remove_rbt k s = Some (Inl KeyNotFound, s)"
proof -
  have r: "rep (heap s) None T" and rt: "root s = rootp T"
    using assms(1) by (simp_all add: tree_in_def)
  have "search k s = Some (Inr None, s)"
    using search_loop_rep[OF r, of k] lookup_absent[OF assms(2)] rt
    by (simp add: search_def prog_simps)
  then show ?thesis
    by (simp add: remove_rbt_def prog_simps)
qed

lemma remove_rbt_correct:
  assumes t: "tree_in s T" and a: "alloc_ok s" and r: "rbt T" and so: "sorted_wrt (<) (keys T)"
    and k: "k \<in> set (keys T)"
  shows "\<exists>s'. remove_rbt k s = Some (Inr (), s') \<and> tree_in s' (del_tree k T) \<and> alloc_ok s'
     \<and> rbt (del_tree k T) \<and> sorted_wrt (<) (keys (del_tree k T))
     \<and> set (keys (del_tree k T)) = set (keys T) - {k}"
proof -
  from locate_present[OF so k] obtain ctx z where l: "locate k [] T = Some (ctx, z)" by blast
  from remove_focus[OF t l] obtain s' where
    run: "remove_rbt k s = Some (Inr (), s')" and t': "tree_in s' (del_tree k T)" by blast
  have "alloc_le s s'" using preservesD[OF alloc_le_remove run] .
  then have a': "alloc_ok s'" using a by (rule alloc_ok_le[rotated])
  from del_tree_props[OF r l] obtain A B where
    r': "rbt (del_tree k T)" and kT: "keys T = A @ k # B" and kd: "keys (del_tree k T) = A @ B"
    by blast
  from sorted_remove_mid[of A k B] so kT kd
  have "sorted_wrt (<) (keys (del_tree k T))" "set (keys (del_tree k T)) = set (keys T) - {k}"
    by simp_all
  then show ?thesis using run t' a' r' by blast
qed

lemma perform_inv:
  assumes t: "tree_in s T" and a: "alloc_ok s" and r: "rbt T" and so: "sorted_wrt (<) (keys T)"
  shows "\<exists>res s' T'. perform c s = Some (res, s') \<and> res \<noteq> Inl NullDeref
     \<and> tree_in s' T' \<and> alloc_ok s' \<and> rbt T' \<and> sorted_wrt (<) (keys T')
     \<and> (case c of
          Insert k v \<Rightarrow> (res = Inr ()) = (k \<notin> set (keys T))
             \<and> set (keys T') = insert k (set (keys T))
        | Remove k \<Rightarrow> (res = Inr ()) = (k \<in> set (keys T))
             \<and> set (keys T') = set (keys T) - {k})"
proof (cases c)
  case (Insert k v)
  show ?thesis
  proof (cases "k \<in> set (keys T)")
    case True
    from insert_rbt_duplicate[OF t a so True, of v] obtain s' where
      "insert_rbt k v s = Some (Inl DuplicateKey, s')" "tree_in s' T" "alloc_ok s'" by blast
    then show ?thesis using Insert True r so by (auto simp add: insert_absorb)
  next
    case False
    from insert_rbt_correct[OF t a False r, of v] obtain s' where
      "insert_rbt k v s = Some (Inr (), s')" "tree_in s' (ins_tree (nxt s) k v T)" "alloc_ok s'"
      by blast
    then show ?thesis using Insert False ins_tree_props[OF r so False, of "nxt s" v] by auto
  qed
next
  case (Remove k)
  show ?thesis
  proof (cases "k \<in> set (keys T)")
    case True
    from remove_rbt_correct[OF t a r so True] show ?thesis using Remove True by auto
  next
    case False
    from remove_rbt_missing[OF t False] show ?thesis using Remove False t a r so by auto
  qed
qed

lemma run_inv:
  assumes "tree_in s T" and "alloc_ok s" and "rbt T" and "sorted_wrt (<) (keys T)"
  shows "\<exists>s' T'. run cs s = Some s' \<and> tree_in s' T' \<and> alloc_ok s' \<and> rbt T'
     \<and> sorted_wrt (<) (keys T')"
  using assms
proof (induction cs arbitrary: s T)
  case Nil
  then show ?case by auto
next
  case (Cons c cs)
  from perform_inv[OF Cons.prems, of c] obtain res s1 T1 where
    p: "perform c s = Some (res, s1)" and n: "res \<noteq> Inl NullDeref"
    and i: "tree_in s1 T1" "alloc_ok s1" "rbt T1" "sorted_wrt (<) (keys T1)"
    by blast
  have "run (c # cs) s = run cs s1"
    using p n by (cases res) (auto split: error.splits)
  then show ?case using Cons.IH[OF i] by simp
qed

lemma run_ok_inv:
  assumes "tree_in s T" and "alloc_ok s" and "rbt T" and "sorted_wrt (<) (keys T)"
    and "run_ok cs s = Some s'"
  shows "\<exists>T'. tree_in s' T' \<and> alloc_ok s' \<and> rbt T' \<and> sorted_wrt (<) (keys T')"
  using assms
proof (induction cs arbitrary: s T)
  case Nil
  then show ?case by auto
next
  case (Cons c cs)
  from perform_inv[OF Cons.prems(1-4), of c] obtain res s1 T1 where
    p: "perform c s = Some (res, s1)"
    and i: "tree_in s1 T1" "alloc_ok s1" "rbt T1" "sorted_wrt (<) (keys T1)"
    by blast
  have "run_ok cs s1 = Some s'"
    using Cons.prems(5) p by (cases res) auto
  from Cons.IH[OF i this] show ?case .
qed

lemma run_ok_inserts:
  assumes "tree_in s T" and "alloc_ok s" and "rbt T" and "sorted_wrt (<) (keys T)"
    and "distinct (map fst kvs)" and "fst ` set kvs \<inter> set (keys T) = {}"
  shows "\<exists>s' T'. run_ok (map (\<lambda>(k, v). Insert k v) kvs) s = Some s' \<and> tree_in s' T'
     \<and> alloc_ok s' \<and> rbt T' \<and> sorted_wrt (<) (keys T')
     \<and> set (keys T') = set (keys T) \<union> fst ` set kvs"
  using assms
proof (induction kvs arbitrary: s T)
  case Nil
  then show ?case by auto
next
  case (Cons kv kvs)
  obtain k v where kv: "kv = (k, v)" by (cases kv)
  have nk: "k \<notin> set (keys T)" using Cons.prems(6) kv by auto
  from perform_inv[OF Cons.prems(1-4), of "Insert k v"] nk obtain s1 T1 where
    p: "insert_rbt k v s = Some (Inr (), s1)"
    and i: "tree_in s1 T1" "alloc_ok s1" "rbt T1" "sorted_wrt (<) (keys T1)"
    and ks: "set (keys T1) = insert k (set (keys T))"
    by auto
  have d: "distinct (map fst kvs)" and dj: "fst ` set kvs \<inter> set (keys T1) = {}"
    using Cons.prems(5,6) kv ks by auto
  from Cons.IH[OF i d dj] obtain s' T' where
    "run_ok (map (\<lambda>(k, v). Insert k v) kvs) s1 = Some s'" "tree_in s' T'"
    "alloc_ok s'" "rbt T'" "sorted_wrt (<) (keys T')"
    "set (keys T') = set (keys T1) \<union> fst ` set kvs"
    by blast
  then show ?case using p kv ks by auto
qed

lemma visited_keys_rep: "rep (heap s) par T \<Longrightarrow> visited_keys s (addrs T) = keys T"
  by (induction T arbitrary: par) (auto simp add: visited_keys_def)

lemma lookup_key:
  "rep h par T \<Longrightarrow> lookup T k = Some a \<Longrightarrow> \<exists>n. h a = Some n \<and> key n = k"
  by (induction T arbitrary: par) (auto split: if_splits)

lemma search_tree:
  assumes "tree_in s T"
  shows "search k s = Some (Inr (lookup T k), s)"
  using assms search_loop_rep[of s None T k]
  by (simp add: search_def tree_in_def prog_simps)

lemma lookup_iff:
  "sorted_wrt (<) (keys T) \<Longrightarrow> lookup T k \<noteq> None \<longleftrightarrow> k \<in> set (keys T)"
  using lookup_present[of T k] lookup_keys[of T k] by auto

lemma bst_sorted: "bst T \<longleftrightarrow> sorted_wrt (<) (keys T)"
proof (induction T)
  case Leaf
  show ?case by simp
next
  case (Node l a k v c r)
  show ?case
  proof
    assume b: "bst (Node l a k v c r)"
    then have "\<forall>x\<in>set (keys l). \<forall>y\<in>set (keys r). x < y"
      by (auto intro: less_trans)
    then show "sorted_wrt (<) (keys (Node l a k v c r))"
      using b Node by (auto simp add: sorted_wrt_append)
  next
    assume "sorted_wrt (<) (keys (Node l a k v c r))"
    then show "bst (Node l a k v c r)"
      using Node by (auto simp add: sorted_wrt_append)
  qed
qed

section \<open>Where the root pointer is assigned\<close>

lemma counters_le_refl: "reflexive counters_le"
  by (simp add: reflexive_def counters_le_def)

lemma counters_le_trans: "transitive counters_le"
  by (auto simp add: transitive_def counters_le_def)

lemma counters_le_put: "preserves counters_le (put p g)"
  by (auto simp add: preserves_def counters_le_def put_def split: option.splits)

lemma counters_le_set_root: "preserves counters_le (set_root p)"
  by (auto simp add: preserves_def counters_le_def prog_simps)

lemmas counters_le_intros = counters_le_refl counters_le_trans counters_le_put counters_le_set_root

lemma rbp_refl: "reflexive root_by_primitives"
  by (simp add: reflexive_def root_by_primitives_def)

lemma rbp_trans: "transitive root_by_primitives"
  unfolding transitive_def root_by_primitives_def
  by (metis le_less_trans less_le_trans order_trans)

lemma rbp_put: "preserves root_by_primitives (put p g)"
  by (auto simp add: preserves_def root_by_primitives_def put_def split: option.splits)

lemma rbp_delete_node: "preserves root_by_primitives (delete_node p)"
  by (auto simp add: preserves_def root_by_primitives_def delete_node_def split: option.splits)

lemma rbp_new_node: "preserves root_by_primitives (new_node k v)"
  by (auto simp add: preserves_def root_by_primitives_def new_node_def)

lemma rbp_count_rotation:
  assumes "preserves counters_le m"
  shows "preserves root_by_primitives (seq count_rotation m)"
  using assms
  by (auto simp add: preserves_def root_by_primitives_def counters_le_def prog_simps
      split: option.splits sum.splits prod.splits; fastforce)

lemma rbp_count_transplant:
  assumes "preserves counters_le m"
  shows "preserves root_by_primitives (seq count_transplant m)"
  using assms
  by (auto simp add: preserves_def root_by_primitives_def counters_le_def prog_simps
      split: option.splits sum.splits prod.splits; fastforce)

lemma rbp_leftRotate: "preserves root_by_primitives (leftRotate x)"
  unfolding leftRotate_def setter_defs
  by (rule rbp_count_rotation) (intro preserves_intros counters_le_intros)

lemma rbp_rightRotate: "preserves root_by_primitives (rightRotate x)"
  unfolding rightRotate_def setter_defs
  by (rule rbp_count_rotation) (intro preserves_intros counters_le_intros)

lemma rbp_transplant: "preserves root_by_primitives (transplant u v)"
  unfolding transplant_def setter_defs
  by (rule rbp_count_transplant) (intro preserves_intros counters_le_intros)

lemmas rbp_intros = rbp_refl rbp_trans rbp_put rbp_delete_node rbp_new_node rbp_leftRotate
  rbp_rightRotate rbp_transplant

lemma rbp_insertFixup: "preserves root_by_primitives (insertFixup z)"
  unfolding insertFixup_def
  apply (intro preserves_intros preserves_insertFixup_loop rbp_intros)
   apply (unfold insertFixup_body_def setter_defs)
   apply (intro preserves_intros rbp_intros)
  apply (intro preserves_intros rbp_intros)
  done

lemma rbp_deleteFixup: "preserves root_by_primitives (deleteFixup x p)"
  unfolding deleteFixup_def
  apply (intro preserves_intros preserves_deleteFixup_loop rbp_intros)
   apply (unfold deleteFixup_body_def deleteFixup_left_def deleteFixup_right_def
      deleteFixup_left_tail_def deleteFixup_right_tail_def setter_defs)
   apply (intro preserves_intros rbp_intros)
  apply (intro preserves_intros rbp_intros)
  done

lemma preserves_maximum_loop:
  assumes "reflexive R" and "transitive R"
  shows "preserves R (maximum_loop z)"
proof -
  have "R s (snd y)" if run: "maximum_loop z s = Some y" for s y
  proof (rule maximum_loop.raw_induct[where P = "\<lambda>z s y. R s (snd y)", OF _ run])
    fix loop :: "nat option \<Rightarrow> (nat option, 'a, 'b) prog" and z s y
    assume IH: "\<And>z s y. loop z s = Some y \<Longrightarrow> R s (snd y)"
      and eq: "bind (get right z) (\<lambda>r. if r \<noteq> None then loop r else ret z) s = Some y"
    have l: "preserves R (loop z)" for z
      using IH by (auto simp add: preserves_def)
    have "preserves R (bind (get right z) (\<lambda>r. if r \<noteq> None then loop r else ret z))"
      by (intro preserves_intros assms l)
    from preservesD[OF this, of s "fst y" "snd y"] eq show "R s (snd y)" by simp
  qed
  then show ?thesis by (auto simp add: preserves_def)
qed

lemma preserves_successor_loop:
  assumes "reflexive R" and "transitive R"
  shows "preserves R (successor_loop z p)"
proof -
  have "R s (snd y)" if run: "successor_loop z p s = Some y" for s y
  proof (rule successor_loop.raw_induct[where P = "\<lambda>z p s y. R s (snd y)", OF _ run])
    fix loop :: "nat option \<Rightarrow> nat option \<Rightarrow> (nat option, 'a, 'b) prog" and z p s y
    assume IH: "\<And>z p s y. loop z p s = Some y \<Longrightarrow> R s (snd y)"
      and eq: "(if p \<noteq> None then
        bind (get right p) (\<lambda>yr.
          if z = yr then bind (get parent p) (loop p) else ret p) s
      else ret p s) = Some y"
    have l: "preserves R (loop z p)" for z p
      using IH by (auto simp add: preserves_def)
    have "preserves R (if p \<noteq> None then
        bind (get right p) (\<lambda>yr.
          if z = yr then bind (get parent p) (loop p) else ret p)
      else ret p)"
      by (intro preserves_intros assms l)
    from preservesD[OF this, of s "fst y" "snd y"] eq show "R s (snd y)"
      by (simp split: if_splits)
  qed
  then show ?thesis by (auto simp add: preserves_def)
qed

lemma preserves_predecessor_loop:
  assumes "reflexive R" and "transitive R"
  shows "preserves R (predecessor_loop z p)"
proof -
  have "R s (snd y)" if run: "predecessor_loop z p s = Some y" for s y
  proof (rule predecessor_loop.raw_induct[where P = "\<lambda>z p s y. R s (snd y)", OF _ run])
    fix loop :: "nat option \<Rightarrow> nat option \<Rightarrow> (nat option, 'a, 'b) prog" and z p s y
    assume IH: "\<And>z p s y. loop z p s = Some y \<Longrightarrow> R s (snd y)"
      and eq: "(if p \<noteq> None then
        bind (get left p) (\<lambda>yl.
          if z = yl then bind (get parent p) (loop p) else ret p) s
      else ret p s) = Some y"
    have l: "preserves R (loop z p)" for z p
      using IH by (auto simp add: preserves_def)
    have "preserves R (if p \<noteq> None then
        bind (get left p) (\<lambda>yl.
          if z = yl then bind (get parent p) (loop p) else ret p)
      else ret p)"
      by (intro preserves_intros assms l)
    from preservesD[OF this, of s "fst y" "snd y"] eq show "R s (snd y)"
      by (simp split: if_splits)
  qed
  then show ?thesis by (auto simp add: preserves_def)
qed

lemma preserves_inOrderHelper:
  assumes "reflexive R" and "transitive R"
  shows "preserves R (inOrderHelper z)"
proof -
  have "R s (snd y)" if run: "inOrderHelper z s = Some y" for s y
  proof (rule inOrderHelper.raw_induct[where P = "\<lambda>z s y. R s (snd y)", OF _ run])
    fix loop :: "nat option \<Rightarrow> (nat list, 'a, 'b) prog" and z s y
    assume IH: "\<And>z s y. loop z s = Some y \<Longrightarrow> R s (snd y)"
      and eq: "(if z = None then ret [] s
      else bind (get left z) (\<lambda>l. bind (loop l) (\<lambda>xs.
           bind (get right z) (\<lambda>r. bind (loop r) (\<lambda>ys.
           ret (xs @ the z # ys))))) s) = Some y"
    have l: "preserves R (loop z)" for z
      using IH by (auto simp add: preserves_def)
    have "preserves R (if z = None then ret []
      else bind (get left z) (\<lambda>l. bind (loop l) (\<lambda>xs.
           bind (get right z) (\<lambda>r. bind (loop r) (\<lambda>ys.
           ret (xs @ the z # ys))))))"
      by (intro preserves_intros assms l)
    from preservesD[OF this, of s "fst y" "snd y"] eq show "R s (snd y)"
      by (simp split: if_splits)
  qed
  then show ?thesis by (auto simp add: preserves_def)
qed

lemma preserves_validateHelper:
  assumes "reflexive R" and "transitive R"
  shows "preserves R (validateHelper z b p)"
proof -
  have "R s (snd y)" if run: "validateHelper z b p s = Some y" for s y
  proof (rule validateHelper.raw_induct[where P = "\<lambda>z b p s y. R s (snd y)", OF _ run])
    fix loop :: "nat option \<Rightarrow> int \<Rightarrow> int \<Rightarrow> (bool \<times> int, 'a, 'b) prog"
      and node blackCount pathBlackCount s y
    assume IH: "\<And>z b p s y. loop z b p s = Some y \<Longrightarrow> R s (snd y)"
      and eq: "(if node = None then
        (if pathBlackCount = - 1 then ret (True, blackCount) s
         else ret (blackCount = pathBlackCount, pathBlackCount) s)
      else
        bind (get color node) (\<lambda>c.
        bind (if c = RED then
                bind (bind (get left node) non_black) (\<lambda>lbad.
                  if lbad then ret True else bind (get right node) non_black)
              else ret False) (\<lambda>bad.
        if bad then ret (False, pathBlackCount)
        else
          bind (get color node) (\<lambda>c.
          bind (get left node) (\<lambda>l.
          bind (loop l (if c = BLACK then blackCount + 1 else blackCount) pathBlackCount)
            (\<lambda>lres.
          if fst lres then
            bind (get right node) (\<lambda>r.
              loop r (if c = BLACK then blackCount + 1 else blackCount) (snd lres))
          else ret (False, snd lres)))))) s) = Some y"
    have l: "preserves R (loop z b p)" for z b p
      using IH by (auto simp add: preserves_def)
    have "preserves R (if node = None then
        (if pathBlackCount = - 1 then ret (True, blackCount)
         else ret (blackCount = pathBlackCount, pathBlackCount))
      else
        bind (get color node) (\<lambda>c.
        bind (if c = RED then
                bind (bind (get left node) non_black) (\<lambda>lbad.
                  if lbad then ret True else bind (get right node) non_black)
              else ret False) (\<lambda>bad.
        if bad then ret (False, pathBlackCount)
        else
          bind (get color node) (\<lambda>c.
          bind (get left node) (\<lambda>l.
          bind (loop l (if c = BLACK then blackCount + 1 else blackCount) pathBlackCount)
            (\<lambda>lres.
          if fst lres then
            bind (get right node) (\<lambda>r.
              loop r (if c = BLACK then blackCount + 1 else blackCount) (snd lres))
          else ret (False, snd lres)))))))"
      unfolding non_black_def by (intro preserves_intros assms l)
    from preservesD[OF this, of s "fst y" "snd y"] eq show "R s (snd y)"
      by (simp split: if_splits)
  qed
  then show ?thesis by (auto simp add: preserves_def)
qed

lemma preserves_destroy:
  assumes "reflexive R" and "transitive R" and "\<And>p. preserves R (delete_node p)"
  shows "preserves R (destroy z)"
proof -
  have "R s (snd y)" if run: "destroy z s = Some y" for s y
  proof (rule destroy.raw_induct[where P = "\<lambda>z s y. R s (snd y)", OF _ run])
    fix loop :: "nat option \<Rightarrow> (unit, 'a, 'b) prog" and z s y
    assume IH: "\<And>z s y. loop z s = Some y \<Longrightarrow> R s (snd y)"
      and eq: "(if z \<noteq> None then
        bind (bind (get left z) loop) (\<lambda>_.
        bind (bind (get right z) loop) (\<lambda>_.
        delete_node z)) s
      else ret () s) = Some y"
    have l: "preserves R (loop z)" for z
      using IH by (auto simp add: preserves_def)
    have "preserves R (if z \<noteq> None then
        bind (bind (get left z) loop) (\<lambda>_.
        bind (bind (get right z) loop) (\<lambda>_.
        delete_node z))
      else ret ())"
      by (intro preserves_intros assms l)
    from preservesD[OF this, of s "fst y" "snd y"] eq show "R s (snd y)"
      by (simp split: if_splits)
  qed
  then show ?thesis by (auto simp add: preserves_def)
qed

text \<open>The search loop of \<open>insert\<close> writes nothing, and returns a node when it starts at one.\<close>

lemma insert_loop_result:
  assumes "insert_loop k y x s = Some res"
  shows "snd res = s \<and> (x \<noteq> None \<or> y \<noteq> None \<longrightarrow> fst res \<noteq> Inr None)"
proof (rule insert_loop.raw_induct[where
      P = "\<lambda>k y x s res. snd res = s \<and> (x \<noteq> None \<or> y \<noteq> None \<longrightarrow> fst res \<noteq> Inr None)"
      and xa = "(((k, y), x), s)" and ya = res, unfolded prod.case, OF _ assms])
  fix loop :: "'a \<Rightarrow> nat option \<Rightarrow> nat option \<Rightarrow> (nat option, 'a, 'b) prog" and k y x s res
  assume IH: "\<And>k y x s res. loop k y x s = Some res \<Longrightarrow>
      snd res = s \<and> (x \<noteq> None \<or> y \<noteq> None \<longrightarrow> fst res \<noteq> Inr None)"
    and eq: "(if x \<noteq> None then
        bind (get key x) (\<lambda>xk.
          if k < xk then bind (get left x) (loop k x)
          else if k > xk then bind (get right x) (loop k x)
          else throw DuplicateKey) s
      else ret y s) = Some res"
  show "snd res = s \<and> (x \<noteq> None \<or> y \<noteq> None \<longrightarrow> fst res \<noteq> Inr None)"
  proof (cases x)
    case None
    then show ?thesis using eq by (auto simp add: prog_simps)
  next
    case (Some a)
    have "(\<exists>x'. loop k x x' s = Some res) \<or> (\<exists>e. res = (Inl e, s))"
      using eq Some by (auto simp add: prog_simps split: option.splits if_splits)
    then show ?thesis
    proof
      assume "\<exists>x'. loop k x x' s = Some res"
      then obtain x' where "loop k x x' s = Some res" by blast
      from IH[OF this] show ?thesis using Some by simp
    next
      assume "\<exists>e. res = (Inl e, s)"
      then show ?thesis by auto
    qed
  qed
qed

lemma rbp_insert_nonempty:
  assumes "root s \<noteq> None" and "insert_rbt k v s = Some (r, s')"
  shows "root_by_primitives s s'"
proof -
  let ?s1 = "s\<lparr>heap := (heap s)(nxt s \<mapsto>
          \<lparr>key = k, val = v, color = RED, parent = None, left = None, right = None\<rparr>),
       nxt := Suc (nxt s)\<rparr>"
  let ?rest = "\<lambda>y. seq (set_parent (Some (nxt s)) y)
    (seq (if y = None then set_root (Some (nxt s))
          else bind (get key y) (\<lambda>yk.
               if k < yk then set_left y (Some (nxt s)) else set_right y (Some (nxt s))))
         (insertFixup (Some (nxt s))))"
  have e: "insert_rbt k v s = bind (insert_loop k None (root s)) ?rest ?s1"
    by (simp add: insert_rbt_def bind_apply new_node_apply get_root_apply)
  have s1: "root_by_primitives s ?s1" by (simp add: root_by_primitives_def)
  obtain res where l: "insert_loop k None (root s) ?s1 = Some res"
    using assms(2) e by (cases "insert_loop k None (root s) ?s1") (auto simp add: bind_apply)
  from insert_loop_result[OF l] assms(1) have sn: "snd res = ?s1" and nn: "fst res \<noteq> Inr None"
    by auto
  show ?thesis
  proof (cases "fst res")
    case (Inl err)
    then have "insert_rbt k v s = Some (Inl err, ?s1)"
      using e l sn by (cases res) (auto simp add: bind_apply)
    then show ?thesis using assms(2) s1 by simp
  next
    case (Inr y)
    then have yn: "y \<noteq> None" using nn by auto
    have "insert_rbt k v s = ?rest y ?s1"
      using e l sn Inr by (cases res) (auto simp add: bind_apply)
    then have run: "?rest y ?s1 = Some (r, s')" using assms(2) by simp
    have "preserves root_by_primitives (?rest y)"
      using yn unfolding setter_defs
      by (simp only: if_False) (intro preserves_intros rbp_intros rbp_insertFixup)
    from preservesD[OF this run] have "root_by_primitives ?s1 s'" .
    then show ?thesis using s1 rbp_trans by (auto simp add: transitive_def)
  qed
qed

lemma rbp_remove: "preserves root_by_primitives (remove_rbt k)"
  unfolding remove_rbt_def remove_two_children_def search_def minimum_def setter_defs
  by (intro preserves_intros preserves_search_loop preserves_minimum_loop rbp_intros
      rbp_deleteFixup)

lemma rbp_search: "preserves root_by_primitives (search k)"
  unfolding search_def by (intro preserves_intros preserves_search_loop rbp_intros)

lemma rbp_minimum: "preserves root_by_primitives (minimum x)"
  unfolding minimum_def by (intro preserves_intros preserves_minimum_loop rbp_intros)

lemma rbp_maximum: "preserves root_by_primitives (maximum x)"
  unfolding maximum_def by (intro preserves_intros preserves_maximum_loop rbp_intros)

lemma rbp_successor: "preserves root_by_primitives (successor x)"
  unfolding successor_def
  by (intro preserves_intros preserves_successor_loop rbp_minimum rbp_intros)

lemma rbp_predecessor: "preserves root_by_primitives (predecessor x)"
  unfolding predecessor_def
  by (intro preserves_intros preserves_predecessor_loop rbp_maximum rbp_intros)

lemma rbp_inOrderTraversal: "preserves root_by_primitives inOrderTraversal"
  unfolding inOrderTraversal_def
  by (intro preserves_intros preserves_inOrderHelper rbp_intros)

lemma rbp_validate: "preserves root_by_primitives validate"
  unfolding validate_def
  by (intro preserves_intros preserves_validateHelper rbp_intros)

lemma rbp_destructor: "preserves root_by_primitives destructor"
  unfolding destructor_def
  by (intro preserves_intros preserves_destroy rbp_intros)

lemma swap_rbt_apply: "swap_rbt other s = Some (Inr (root s), s\<lparr>root := other\<rparr>)"
  by (simp add: swap_rbt_def prog_simps)

lemma copy_constructor_example:
  "\<exists>s'. copy_constructor (Some 0) example_state = Some (Inr (), s')
     \<and> tree_in s' (Node Leaf 2 1 () BLACK (Node Leaf 3 5 () RED Leaf))
     \<and> root s' = Some 2 \<and> rotations s' = 0 \<and> transplants s' = 0"
  by (simp add: copy_constructor_def clone.simps new_node_with_def prog_simps field_defs
      example_state_def tree_in_def)

lemma insert_root_null:
  assumes "root s = None"
  shows "\<exists>s'. insert_rbt k v s = Some (Inr (), s') \<and> root s' = Some (nxt s)
     \<and> rotations s' = rotations s \<and> transplants s' = transplants s"
  using assms
  by (simp add: insert_rbt_def insert_loop.simps insertFixup_def insertFixup_loop.simps
      insertFixup_cond_def prog_simps field_defs)

lemma example_remove_root:
  "\<exists>s'. remove_rbt 1 example_state = Some (Inr (), s') \<and> root s' = Some 1"
proof -
  have so: "sorted_wrt (<) (keys example_tree)" and r: "rbt example_tree"
    and k: "1 \<in> set (keys example_tree)"
    by (simp_all add: example_tree_def rbt_def)
  from remove_rbt_correct[OF example_tree_in example_alloc_ok r so k] obtain s' where
    rm: "remove_rbt 1 example_state = Some (Inr (), s')"
    and t: "tree_in s' (del_tree 1 example_tree)" by blast
  have "del_tree 1 example_tree = Node Leaf 1 5 () BLACK Leaf"
    by (simp add: del_tree_def example_tree_def)
  then have "root s' = Some 1" using t by (simp add: tree_in_def)
  then show ?thesis using rm by blast
qed

section \<open>Failure paths\<close>

text \<open>
  C2.  If the state stores a search tree \<open>T\<close> and \<open>k\<close> is one of its keys,
  \<open>insert_rbt k v\<close> raises \<open>DuplicateKey\<close>.  The state it leaves stores the same tree
  \<open>T\<close> (same nodes, links, colours, keys and values), has the same root, and every node
  that was allocated before the call is unchanged.  (The node allocated at the start of
  \<open>insert\<close> stays in the store, outside the tree.)
\<close>

theorem insert_duplicate_key:
  assumes "tree_in s T" and "alloc_ok s" and "sorted_wrt (<) (keys T)" and "k \<in> set (keys T)"
  shows "\<exists>s'. insert_rbt k v s = Some (Inl DuplicateKey, s') \<and> tree_in s' T
           \<and> root s' = root s \<and> (\<forall>a. heap s a \<noteq> None \<longrightarrow> heap s' a = heap s a)
           \<and> rotations s' = rotations s \<and> transplants s' = transplants s"
  using insert_rbt_duplicate[OF assms, of v] by blast

theorem insert_duplicate_key_witness:
  "tree_in example_state example_tree \<and> sorted_wrt (<) (keys example_tree)
   \<and> 5 \<in> set (keys example_tree)
   \<and> (\<exists>s'. insert_rbt 5 () example_state = Some (Inl DuplicateKey, s')
          \<and> tree_in s' example_tree \<and> root s' = root example_state)"
proof -
  have a: "tree_in example_state example_tree" by (rule example_tree_in)
  have b: "sorted_wrt (<) (keys example_tree)" by (simp add: example_tree_def)
  have c: "5 \<in> set (keys example_tree)" by (simp add: example_tree_def)
  have d: "alloc_ok example_state" by (rule example_alloc_ok)
  show ?thesis using a b c insert_duplicate_key[OF a d b c, of "()"] by blast
qed

text \<open>
  C3.  If the state stores a tree \<open>T\<close> and \<open>k\<close> is not one of its keys, \<open>remove_rbt k\<close>
  raises \<open>KeyNotFound\<close> and the state it leaves is the state before the call: nothing
  was written, so \<open>validate\<close> and the in-order traversal give what they gave before.
\<close>

theorem remove_missing_key:
  assumes "tree_in s T" and "k \<notin> set (keys T)"
  shows "remove_rbt k s = Some (Inl KeyNotFound, s)
         \<and> validate s = Some (Inr (rbt T), s)
         \<and> inOrderTraversal s = Some (Inr (addrs T), s)"
proof -
  have r: "rep (heap s) None T" and rt: "root s = rootp T"
    using assms(1) by (simp_all add: tree_in_def)
  have "search k s = Some (Inr None, s)"
    using search_loop_rep[OF r, of k] lookup_absent[OF assms(2)] rt
    by (simp add: search_def prog_simps)
  then have "remove_rbt k s = Some (Inl KeyNotFound, s)"
    by (simp add: remove_rbt_def prog_simps)
  moreover have "inOrderTraversal s = Some (Inr (addrs T), s)"
    using inOrderHelper_rep[OF r] rt by (simp add: inOrderTraversal_def prog_simps)
  ultimately show ?thesis using validate_rep[OF r rt] by simp
qed

theorem remove_missing_key_witness:
  "tree_in example_state example_tree \<and> 3 \<notin> set (keys example_tree)
   \<and> remove_rbt 3 example_state = Some (Inl KeyNotFound, example_state)
   \<and> validate example_state = Some (Inr True, example_state)
   \<and> inOrderTraversal example_state = Some (Inr [0, 1], example_state)"
proof -
  have a: "tree_in example_state example_tree" by (rule example_tree_in)
  have b: "3 \<notin> set (keys example_tree)" by (simp add: example_tree_def)
  have c: "rbt example_tree" "addrs example_tree = [0, 1]"
    by (simp_all add: example_tree_def rbt_def)
  show ?thesis using a b remove_missing_key[OF a b] c by simp
qed

section \<open>What validate looks at\<close>

text \<open>
  C10.  \<open>validate\<close> reads colours only.  The state \<open>bad_order_state\<close> stores the tree
  \<open>bad_order_tree\<close>, whose root has key 1 and a left child with key 5: the in-order keys
  are not ascending.  Its colouring satisfies the red-black rules, and \<open>validate\<close>
  returns true on it.
\<close>

theorem validate_ignores_key_order:
  "tree_in bad_order_state bad_order_tree
   \<and> keys bad_order_tree = [5, 1]
   \<and> \<not> sorted_wrt (<) (keys bad_order_tree)
   \<and> rbt bad_order_tree
   \<and> validate bad_order_state = Some (Inr True, bad_order_state)"
  by (simp add: tree_in_def bad_order_state_def bad_order_tree_def rbt_def
      validate_def validateHelper.simps prog_simps field_defs)

theorem validate_ignores_key_order_witness:
  "validate bad_order_state = Some (Inr True, bad_order_state)
   \<and> inOrderTraversal bad_order_state = Some (Inr [1, 0], bad_order_state)"
proof -
  have "rep (heap bad_order_state) None bad_order_tree" "root bad_order_state = rootp bad_order_tree"
    using validate_ignores_key_order by (simp_all add: tree_in_def)
  then show ?thesis
    using validate_ignores_key_order inOrderHelper_rep[of bad_order_state None bad_order_tree]
    by (simp add: inOrderTraversal_def prog_simps bad_order_tree_def)
qed

section \<open>Release of nodes\<close>

text \<open>
  C9.  \<open>insert\<close> allocates its node before it looks for the key (line 183) and raises
  on a duplicate (line 195) without releasing it.  After \<open>insert 1\<close> twice on an empty
  tree the second call has raised \<open>DuplicateKey\<close>, the tree still is the single node at
  address 0, and the node at address 1 is allocated, is not the root and has no parent:
  no pointer of the tree leads to it.  The destructor then releases address 0 only, and
  address 1 stays allocated.
\<close>

theorem duplicate_insert_leaks_node:
  "\<exists>s1 s2 s3. insert_rbt (1::nat) () empty_tree = Some (Inr (), s1)
     \<and> insert_rbt 1 () s1 = Some (Inl DuplicateKey, s2)
     \<and> tree_in s2 (Node Leaf 0 1 () BLACK Leaf)
     \<and> heap s2 1 = Some \<lparr>key = 1, val = (), color = RED, parent = None, left = None, right = None\<rparr>
     \<and> destructor s2 = Some (Inr (), s3)
     \<and> heap s3 0 = None
     \<and> heap s3 1 = Some \<lparr>key = 1, val = (), color = RED, parent = None, left = None, right = None\<rparr>"
  by (simp add: insert_rbt_def insert_loop.simps insertFixup_def insertFixup_loop.simps
      insertFixup_cond_def destructor_def destroy.simps prog_simps field_defs empty_tree_def
      tree_in_def)

theorem duplicate_insert_leaks_node_witness:
  "\<exists>s1 s2. insert_rbt (1::nat) () empty_tree = Some (Inr (), s1)
     \<and> insert_rbt 1 () s1 = Some (Inl DuplicateKey, s2)
     \<and> root s2 = Some 0 \<and> heap s2 1 \<noteq> None"
  using duplicate_insert_leaks_node by (auto simp add: tree_in_def)

section \<open>Order queries\<close>

text \<open>
  C6.  In a state that stores a search tree \<open>T\<close> (in-order keys strictly ascending),
  for every node \<open>a\<close> of \<open>T\<close>: \<open>successor\<close> returns, without changing the state, the
  node of \<open>T\<close> with the least key above the key of \<open>a\<close>, or \<open>nullptr\<close> if no key of
  \<open>T\<close> is above it; \<open>predecessor\<close> returns the node with the greatest key below, or
  \<open>nullptr\<close> if no key of \<open>T\<close> is below.
\<close>

theorem successor_predecessor_correct:
  assumes "tree_in s T" and "sorted_wrt (<) (keys T)" and "a \<in> set (addrs T)"
    and "heap s a = Some n"
  shows "(\<exists>r. successor (Some a) s = Some (Inr r, s) \<and> least_above s T (key n) r)
       \<and> (\<exists>r. predecessor (Some a) s = Some (Inr r, s) \<and> greatest_below s T (key n) r)"
proof -
  obtain ctx l k v c r where T: "T = plug ctx (Node l a k v c r)"
    using addr_focus[OF assms(3)] by blast
  have f: "focus s ctx (Node l a k v c r)" using assms(1) by (simp add: focus_tree_in T)
  then have k: "key n = k" using assms(4) by (simp add: focus_def)
  show ?thesis
    using successor_focus[OF f] predecessor_focus[OF f]
      succ_of_least_above[OF f] pred_of_greatest_below[OF f] assms(2)
    unfolding T k by blast
qed

theorem successor_predecessor_correct_witness:
  "tree_in example_state example_tree \<and> sorted_wrt (<) (keys example_tree)
   \<and> 0 \<in> set (addrs example_tree)
   \<and> (\<exists>r. successor (Some 0) example_state = Some (Inr r, example_state)
          \<and> least_above example_state example_tree 1 r)
   \<and> (\<exists>r. predecessor (Some 0) example_state = Some (Inr r, example_state)
          \<and> greatest_below example_state example_tree 1 r)
   \<and> successor (Some 0) example_state = Some (Inr (Some 1), example_state)
   \<and> predecessor (Some 0) example_state = Some (Inr None, example_state)"
proof -
  have a: "tree_in example_state example_tree" by (rule example_tree_in)
  have b: "sorted_wrt (<) (keys example_tree)" by (simp add: example_tree_def)
  have c: "0 \<in> set (addrs example_tree)" by (simp add: example_tree_def)
  have d: "heap example_state 0 =
    Some \<lparr>key = 1, val = (), color = BLACK, parent = None, left = None, right = Some 1\<rparr>"
    by (simp add: example_state_def)
  have e: "successor (Some 0) example_state = Some (Inr (Some 1), example_state)"
    "predecessor (Some 0) example_state = Some (Inr None, example_state)"
    by (simp_all add: successor_def predecessor_def minimum_def minimum_loop.simps
        predecessor_loop.simps prog_simps example_state_def)
  show ?thesis using a b c e successor_predecessor_correct[OF a b c d] by simp
qed

section \<open>Rotations of an insertion\<close>

text \<open>
  C7.  In a state that stores a tree \<open>T\<close> with the red-black colour invariants, an
  insertion of a key that \<open>T\<close> does not hold returns (the search loop and the loop of
  \<open>insertFixup\<close> terminate), and \<open>leftRotate\<close> and \<open>rightRotate\<close> are called at most
  twice in all during the call.
\<close>

theorem insert_rotations_bounded:
  assumes "tree_in s T" and "alloc_ok s" and "rbt T" and "k \<notin> set (keys T)"
  shows "\<exists>s'. insert_rbt k v s = Some (Inr (), s') \<and> rotations s' \<le> rotations s + 2"
  using insert_rbt_correct[OF assms(1,2,4,3)] by blast

theorem insert_rotations_bounded_witness:
  "tree_in example_state example_tree \<and> alloc_ok example_state \<and> rbt example_tree
   \<and> 7 \<notin> set (keys example_tree)
   \<and> (\<exists>s'. insert_rbt 7 () example_state = Some (Inr (), s')
          \<and> rotations s' \<le> rotations example_state + 2)"
proof -
  have a: "tree_in example_state example_tree" by (rule example_tree_in)
  have b: "alloc_ok example_state" by (rule example_alloc_ok)
  have c: "rbt example_tree" by (simp add: example_tree_def rbt_def)
  have d: "7 \<notin> set (keys example_tree)" by (simp add: example_tree_def)
  show ?thesis using a b c d insert_rotations_bounded[OF a b c d, of "()"] by simp
qed

section \<open>What the primitives write\<close>




section \<open>Sequences of insertions and removals\<close>

text \<open>
  C1.  Whatever calls of \<open>insert\<close> and \<open>remove\<close> are made on the empty tree, in whatever
  order, every call returns or raises \<open>DuplicateKey\<close> or \<open>KeyNotFound\<close>, and after each
  of them (after the first \<open>n\<close> calls, for every \<open>n\<close>) \<open>validate\<close> returns true: the
  state stores a tree whose root is black, where no red node has a red child, and where
  all paths from a node down to a null link hold the same number of black nodes.
\<close>

theorem validate_after_operations:
  "\<exists>s T. run (take n cs) empty_tree = Some s \<and> validate s = Some (Inr True, s)
     \<and> tree_in s T \<and> color_of T = BLACK \<and> no_red_red T \<and> balanced T"
proof -
  have "sorted_wrt (<) (keys (Leaf :: ('a, 'b) tree))" by simp
  from run_inv[OF empty_tree_in empty_alloc_ok rbt_Leaf this, of "take n cs"]
  obtain s T where r: "run (take n cs) empty_tree = Some s" and t: "tree_in s T" and b: "rbt T"
    by blast
  have "validate s = Some (Inr True, s)"
    using validate_rep[of s T] t b by (simp add: tree_in_def)
  then show ?thesis using r t b by (auto simp add: rbt_def)
qed

theorem validate_after_operations_witness:
  "\<exists>s T. run [Insert 2 (), Insert 1 (), Insert 2 (), Remove 1] (empty_tree :: (nat, unit) tree_state)
       = Some s
     \<and> validate s = Some (Inr True, s)
     \<and> tree_in s T \<and> color_of T = BLACK \<and> no_red_red T \<and> balanced T"
proof -
  have "take 4 [Insert 2 (), Insert 1 (), Insert 2 (), Remove 1, Remove (7::nat)]
      = [Insert 2 (), Insert 1 (), Insert 2 (), Remove 1]" by simp
  then show ?thesis
    using validate_after_operations[of 4 "[Insert 2 (), Insert 1 (), Insert 2 (), Remove 1, Remove (7::nat)]"]
    by (simp only:)
qed

text \<open>
  C4.  In every state reached from the empty tree by calls of \<open>insert\<close> and \<open>remove\<close> that
  all succeed, the in-order traversal returns, and the keys of the nodes it visits, in
  the order of the visit, are strictly ascending.  They are the keys of the tree the
  state stores, where every node has smaller keys in its left subtree and larger keys in
  its right subtree.
\<close>

theorem in_order_ascending:
  assumes "run_ok cs empty_tree = Some s"
  shows "\<exists>as T. inOrderTraversal s = Some (Inr as, s) \<and> sorted_wrt (<) (visited_keys s as)
     \<and> tree_in s T \<and> visited_keys s as = keys T \<and> bst T"
proof -
  have "sorted_wrt (<) (keys (Leaf :: ('a, 'b) tree))" by simp
  from run_ok_inv[OF empty_tree_in empty_alloc_ok rbt_Leaf this assms]
  obtain T where t: "tree_in s T" and so: "sorted_wrt (<) (keys T)" by blast
  have r: "rep (heap s) None T" and rt: "root s = rootp T"
    using t by (simp_all add: tree_in_def)
  have "inOrderTraversal s = Some (Inr (addrs T), s)"
    using inOrderHelper_rep[OF r] rt by (simp add: inOrderTraversal_def prog_simps)
  moreover have "visited_keys s (addrs T) = keys T" using r by (rule visited_keys_rep)
  ultimately show ?thesis using so t by (auto simp add: bst_sorted)
qed

theorem in_order_ascending_witness:
  "\<exists>s. run_ok [Insert 2 (), Insert 1 (), Insert 3 (), Remove 2] (empty_tree :: (nat, unit) tree_state)
       = Some s
     \<and> (\<exists>as T. inOrderTraversal s = Some (Inr as, s) \<and> sorted_wrt (<) (visited_keys s as)
          \<and> tree_in s T \<and> visited_keys s as = keys T \<and> bst T)"
proof -
  have "\<not> Option.is_none
      (run_ok [Insert 2 (), Insert 1 (), Insert 3 (), Remove 2] (empty_tree :: (nat, unit) tree_state))"
    by code_simp
  then obtain s where
    r: "run_ok [Insert 2 (), Insert 1 (), Insert 3 (), Remove 2] (empty_tree :: (nat, unit) tree_state)
       = Some s"
    by (auto simp add: Option.is_none_def)
  from in_order_ascending[OF r] r show ?thesis by blast
qed

text \<open>
  C5.  After the insertion of pairs with distinct keys into the empty tree, all of which
  succeed, \<open>search k\<close> returns a node exactly when \<open>k\<close> is one of the inserted keys, and
  that node holds the key \<open>k\<close>.  A call of \<open>remove k\<close> for one of the keys then succeeds;
  after it \<open>search k\<close> returns null, and \<open>search\<close> returns a node with the key for every
  other inserted key.
\<close>

theorem search_finds_inserted_keys:
  assumes "distinct (map fst kvs)"
  shows "\<exists>s. run_ok (map (\<lambda>(k, v). Insert k v) kvs) empty_tree = Some s
     \<and> (\<forall>k. \<exists>r. search k s = Some (Inr r, s) \<and> (r \<noteq> None \<longleftrightarrow> k \<in> fst ` set kvs)
              \<and> (\<forall>a. r = Some a \<longrightarrow> (\<exists>n. heap s a = Some n \<and> key n = k)))
     \<and> (\<forall>k \<in> fst ` set kvs. \<exists>s'. remove_rbt k s = Some (Inr (), s')
           \<and> search k s' = Some (Inr None, s')
           \<and> (\<forall>k' \<in> fst ` set kvs - {k}. \<exists>a n. search k' s' = Some (Inr (Some a), s')
                 \<and> heap s' a = Some n \<and> key n = k'))"
proof -
  have "sorted_wrt (<) (keys (Leaf :: ('a, 'b) tree))" by simp
  from run_ok_inserts[OF empty_tree_in empty_alloc_ok rbt_Leaf this assms]
  obtain s T where run: "run_ok (map (\<lambda>(k, v). Insert k v) kvs) empty_tree = Some s"
    and t: "tree_in s T" and a: "alloc_ok s" and r: "rbt T" and so: "sorted_wrt (<) (keys T)"
    and ks: "set (keys T) = fst ` set kvs"
    by auto
  have rp: "rep (heap s) None T" using t by (simp add: tree_in_def)
  have 1: "\<exists>r. search k s = Some (Inr r, s) \<and> (r \<noteq> None \<longleftrightarrow> k \<in> fst ` set kvs)
              \<and> (\<forall>a. r = Some a \<longrightarrow> (\<exists>n. heap s a = Some n \<and> key n = k))" for k
    using search_tree[OF t, of k] lookup_iff[OF so, of k] lookup_key[OF rp, of k] ks by auto
  have 2: "\<exists>s'. remove_rbt k s = Some (Inr (), s')
           \<and> search k s' = Some (Inr None, s')
           \<and> (\<forall>k' \<in> fst ` set kvs - {k}. \<exists>a n. search k' s' = Some (Inr (Some a), s')
                 \<and> heap s' a = Some n \<and> key n = k')" if k: "k \<in> fst ` set kvs" for k
  proof -
    have "k \<in> set (keys T)" using k ks by simp
    from remove_rbt_correct[OF t a r so this] obtain s' where
      rm: "remove_rbt k s = Some (Inr (), s')" and t': "tree_in s' (del_tree k T)"
      and so': "sorted_wrt (<) (keys (del_tree k T))"
      and ks': "set (keys (del_tree k T)) = set (keys T) - {k}"
      by blast
    have rp': "rep (heap s') None (del_tree k T)" using t' by (simp add: tree_in_def)
    have "lookup (del_tree k T) k = None"
      using lookup_iff[OF so', of k] ks' by auto
    then have a: "search k s' = Some (Inr None, s')"
      using search_tree[OF t', of k] by simp
    have "\<exists>a n. search k' s' = Some (Inr (Some a), s') \<and> heap s' a = Some n \<and> key n = k'"
      if "k' \<in> fst ` set kvs - {k}" for k'
    proof -
      have "k' \<in> set (keys (del_tree k T))" using that ks ks' by simp
      then obtain a where l: "lookup (del_tree k T) k' = Some a"
        using lookup_iff[OF so', of k'] by auto
      from lookup_key[OF rp' l] search_tree[OF t', of k'] l show ?thesis by auto
    qed
    then show ?thesis using rm a by blast
  qed
  show ?thesis using run 1 2 by blast
qed

theorem search_finds_inserted_keys_witness:
  "distinct (map fst [(2::nat, ()), (1, ()), (3, ())])
   \<and> (\<exists>s. run_ok [Insert 2 (), Insert 1 (), Insert 3 ()] (empty_tree :: (nat, unit) tree_state)
           = Some s
        \<and> (\<exists>a. search 1 s = Some (Inr (Some a), s))
        \<and> search 7 s = Some (Inr None, s)
        \<and> (\<exists>s'. remove_rbt 2 s = Some (Inr (), s')
              \<and> search 2 s' = Some (Inr None, s')
              \<and> (\<exists>a. search 3 s' = Some (Inr (Some a), s'))))"
proof -
  let ?kvs = "[(2::nat, ()), (1, ()), (3, ())]"
  have d: "distinct (map fst ?kvs)" by simp
  from search_finds_inserted_keys[OF d] obtain s :: "(nat, unit) tree_state" where
    run: "run_ok (map (\<lambda>(k, v). Insert k v) ?kvs) empty_tree = Some s"
    and f: "\<forall>k. \<exists>r. search k s = Some (Inr r, s) \<and> (r \<noteq> None \<longleftrightarrow> k \<in> fst ` set ?kvs)
              \<and> (\<forall>a. r = Some a \<longrightarrow> (\<exists>n. heap s a = Some n \<and> key n = k))"
    and g: "\<forall>k \<in> fst ` set ?kvs. \<exists>s'. remove_rbt k s = Some (Inr (), s')
           \<and> search k s' = Some (Inr None, s')
           \<and> (\<forall>k' \<in> fst ` set ?kvs - {k}. \<exists>a n. search k' s' = Some (Inr (Some a), s')
                 \<and> heap s' a = Some n \<and> key n = k')"
    by blast
  have r: "run_ok [Insert 2 (), Insert 1 (), Insert 3 ()] empty_tree = Some s"
    using run by (simp only: list.map prod.case)
  have 1: "\<exists>a. search 1 s = Some (Inr (Some a), s)"
    using f[rule_format, of 1] by auto
  have 7: "search 7 s = Some (Inr None, s)"
    using f[rule_format, of 7] by auto
  from g[rule_format, of 2] obtain s' where
    rm: "remove_rbt 2 s = Some (Inr (), s')" and n: "search 2 s' = Some (Inr None, s')"
    and o: "\<forall>k' \<in> fst ` set ?kvs - {2}. \<exists>a n. search k' s' = Some (Inr (Some a), s')
                 \<and> heap s' a = Some n \<and> key n = k'"
    by auto
  have 3: "\<exists>a. search 3 s' = Some (Inr (Some a), s')"
    using o[rule_format, of 3] by auto
  show ?thesis using d r 1 7 rm n 3 by blast
qed

end
